theory Spec2Isabelle
  imports Main "HOL-Library.Word" "HOL-Library.Multiset" "HOL-Library.Sublist"
begin

section \<open>Public types (include/isofuzz.h) and the transaction record (src/isofuzz_ctx.h)\<close>

text \<open>
  A handle \<open>isofuzz_trx_t\<close> is a pointer to the transaction record; it is modelled as the
  address of the record, \<open>0\<close> being \<open>nullptr\<close>.  The 64-bit identifiers are machine words.
  A \<open>std::thread::id\<close> is only ever printed, so it is modelled as the text that
  \<open>operator<<\<close> writes for it.
\<close>

type_synonym uint64_t = "64 word"
type_synonym isofuzz_trx_t = nat

datatype IsoFuzzSchedulerIntent = Intent_TXN_BEGIN | Intent_TXN_COMMIT | Intent_TXN_ABORT | OP_READ | OP_WRITE

datatype IsoFuzzOpType =
  READ | WRITE_UPDATE | WRITE_INSERT | WRITE_DELETE | TXN_PROMOTE | TXN_BEGIN | TXN_COMMIT

record IsoFuzzObject =
  table_name :: string
  column_name :: "string option"
  row_identifier :: uint64_t

record IsoFuzzTrxImpl =
  lib_id :: uint64_t
  dbms_id :: uint64_t
  thread_id :: string

text \<open>
  Ways in which the process leaves defined behaviour or dies: a dereference of a pointer whose
  object has been destroyed (or never existed), a failed \<open>assert\<close>, and \<open>std::terminate\<close>
  (called when a \<open>std::thread\<close> object that is still joinable is assigned to).
\<close>

datatype fault = Dangling_pointer | Assertion_failed | Terminate_called

section \<open>Decimal output and tab-separated fields\<close>

definition TAB :: char where
  "TAB = CHR 0x09"

definition digit_char :: "nat \<Rightarrow> char" where
  "digit_char d = ''0123456789'' ! d"

function show_nat :: "nat \<Rightarrow> string" where
  "show_nat n = (if n < 10 then [digit_char n] else show_nat (n div 10) @ [digit_char (n mod 10)])"
  by pat_completeness auto
termination
  by (relation "measure id") auto

definition show_u64 :: "uint64_t \<Rightarrow> string" where
  "show_u64 w = show_nat (unat w)"

text \<open>The fields of a line: the pieces between tab characters.\<close>

fun split_tab :: "string \<Rightarrow> string list" where
  "split_tab [] = [[]]"
| "split_tab (c # cs) =
     (if c = TAB then [] # split_tab cs
      else (case split_tab cs of [] \<Rightarrow> [[c]] | f # fs \<Rightarrow> (c # f) # fs))"

section \<open>The log sink (logger.cpp)\<close>

text \<open>
  \<open>g_out_ptr\<close> points at \<open>std::cout\<close>, \<open>std::cerr\<close> or \<open>g_file\<close>.  \<open>g_file\<close> is \<open>Some path\<close> while
  the stream is open.  Every line handed to a stream is recorded, in order, with the stream it
  went to; a line written to the closed file stream is recorded at \<open>To_file None\<close> (the
  stream drops it).  The environment of the process is the three variables the library reads
  and, for the file system, which paths can be opened for appending.
\<close>

datatype ostream = Cout | Cerr | G_file

datatype sink = To_stdout | To_stderr | To_file "string option"

record host_env =
  RANDOM_SEED :: "string option"
  OUT_FILE :: "string option"
  ISOFUZZ_EPOCH_MS :: "string option"
  can_append :: "string \<Rightarrow> bool"

record logger_state =
  g_file :: "string option"
  g_out_ptr :: ostream
  written :: "(sink \<times> string) list"

definition current_sink :: "logger_state \<Rightarrow> sink" where
  "current_sink L = (case g_out_ptr L of Cout \<Rightarrow> To_stdout | Cerr \<Rightarrow> To_stderr | G_file \<Rightarrow> To_file (g_file L))"

definition logger_init :: "host_env \<Rightarrow> logger_state \<Rightarrow> logger_state" where
  "logger_init env L =
     (case OUT_FILE env of
        Some path \<Rightarrow>
          (if can_append env path
           then L\<lparr>g_file := Some path, g_out_ptr := G_file\<rparr>
           else L\<lparr>g_file := None, g_out_ptr := Cerr,
                  written := written L @
                    [(To_stderr, ''IsoFuzz WARNING: Could not open OUT_FILE='' @ path @ ''. Logging to stderr.'')]\<rparr>)
      | None \<Rightarrow> L\<lparr>g_out_ptr := Cout\<rparr>)"

definition logger_shutdown :: "logger_state \<Rightarrow> logger_state" where
  "logger_shutdown L = L\<lparr>g_file := None, g_out_ptr := Cout\<rparr>"

definition logger_log_line :: "string \<Rightarrow> logger_state \<Rightarrow> logger_state" where
  "logger_log_line line L = L\<lparr>written := written L @ [(current_sink L, line)]\<rparr>"

section \<open>The transaction registry (IsoFuzzContext)\<close>

text \<open>
  \<open>m_transactions\<close> maps a \<open>lib_id\<close> to the \<open>unique_ptr\<close> that owns the record; the owned
  objects live in \<open>trx_objects\<close>, keyed by address.  Erasing or overwriting a map entry
  destroys the object it owns.  \<open>make_unique\<close> takes the next unused address.
\<close>

record IsoFuzzContext =
  m_transactions :: "uint64_t \<rightharpoonup> nat"
  next_lib_id :: uint64_t
  trx_objects :: "nat \<rightharpoonup> IsoFuzzTrxImpl"
  next_trx_addr :: nat

definition destroy_owned :: "uint64_t \<Rightarrow> IsoFuzzContext \<Rightarrow> IsoFuzzContext" where
  "destroy_owned i c =
     (case m_transactions c i of
        None \<Rightarrow> c
      | Some a \<Rightarrow> c\<lparr>m_transactions := (m_transactions c)(i := None),
                     trx_objects := (trx_objects c)(a := None)\<rparr>)"

definition begin_trx :: "string \<Rightarrow> IsoFuzzContext \<Rightarrow> isofuzz_trx_t \<times> IsoFuzzContext" where
  "begin_trx caller c =
     (let i = next_lib_id c;
          trx_ptr = next_trx_addr c;
          c1 = destroy_owned i (c\<lparr>next_lib_id := next_lib_id c + 1, next_trx_addr := Suc (next_trx_addr c)\<rparr>)
      in (trx_ptr,
          c1\<lparr>m_transactions := (m_transactions c1)(i \<mapsto> trx_ptr),
             trx_objects := (trx_objects c1)(trx_ptr \<mapsto> \<lparr>lib_id = i, dbms_id = 0, thread_id = caller\<rparr>)\<rparr>))"

definition end_trx :: "isofuzz_trx_t \<Rightarrow> IsoFuzzContext \<Rightarrow> fault + IsoFuzzContext" where
  "end_trx handle c =
     (if handle = 0 then Inr c
      else (case trx_objects c handle of
              None \<Rightarrow> Inl Dangling_pointer
            | Some trx \<Rightarrow> Inr (destroy_owned (lib_id trx) c)))"

definition get_trx :: "isofuzz_trx_t \<Rightarrow> nat option" where
  "get_trx handle = (if handle = 0 then None else Some handle)"

section \<open>Reading the environment: \<open>std::stoi\<close> and \<open>std::stol\<close>\<close>

text \<open>
  \<open>std::stoi\<close> and \<open>std::stol\<close> are the C++ standard library's: they call \<open>strtol\<close> in base
  10, which skips leading white space, reads an optional sign and then the longest run of
  decimal digits, and ignores whatever follows.  With no digit there, they throw
  \<open>std::invalid_argument\<close>; when the number does not fit the result type (\<open>int\<close>: 32 bits,
  \<open>long\<close>: 64 bits on LP64), they throw \<open>std::out_of_range\<close>.
\<close>

datatype conversion_error = Invalid_argument | Out_of_range

definition isspace :: "char \<Rightarrow> bool" where
  "isspace c = (c \<in> set [CHR '' '', CHR 0x09, CHR 0x0A, CHR 0x0B, CHR 0x0C, CHR 0x0D])"

definition isdigit :: "char \<Rightarrow> bool" where
  "isdigit c = (c \<in> set ''0123456789'')"

definition digit_val :: "char \<Rightarrow> int" where
  "digit_val c = int (of_char c) - 48"

definition strtol10 :: "string \<Rightarrow> int option" where
  "strtol10 str =
     (let r = dropWhile isspace str;
          negative = (case r of [] \<Rightarrow> False | c # cs \<Rightarrow> c = CHR ''-'');
          r1 = (case r of [] \<Rightarrow> [] | c # cs \<Rightarrow> if c = CHR ''-'' \<or> c = CHR ''+'' then cs else r);
          ds = takeWhile isdigit r1;
          magnitude = foldl (\<lambda>a c. 10 * a + digit_val c) 0 ds
      in if ds = [] then None else Some (if negative then - magnitude else magnitude))"

definition stoi :: "string \<Rightarrow> conversion_error + int" where
  "stoi str =
     (case strtol10 str of
        None \<Rightarrow> Inl Invalid_argument
      | Some v \<Rightarrow> if v < - (2 ^ 31) \<or> 2 ^ 31 - 1 < v then Inl Out_of_range else Inr v)"

definition stol :: "string \<Rightarrow> conversion_error + int" where
  "stol str =
     (case strtol10 str of
        None \<Rightarrow> Inl Invalid_argument
      | Some v \<Rightarrow> if v < - (2 ^ 63) \<or> 2 ^ 63 - 1 < v then Inl Out_of_range else Inr v)"

text \<open>
  Two properties of the text of a variable.  \<open>integer_text\<close>: the text is a decimal integer
  (an optional sign and at least one digit, nothing else).  \<open>leading_number\<close>: after
  optional white space and an optional sign, the text continues with a digit.
\<close>

definition integer_text :: "string \<Rightarrow> bool" where
  "integer_text str =
     (case str of
        [] \<Rightarrow> False
      | c # cs \<Rightarrow> if c = CHR ''-'' \<or> c = CHR ''+'' then cs \<noteq> [] \<and> list_all isdigit cs
                  else list_all isdigit str)"

definition leading_number :: "string \<Rightarrow> bool" where
  "leading_number str =
     (case dropWhile isspace str of
        [] \<Rightarrow> False
      | c # cs \<Rightarrow> if c = CHR ''-'' \<or> c = CHR ''+'' then (case cs of [] \<Rightarrow> False | d # ds \<Rightarrow> isdigit d)
                  else isdigit c)"

section \<open>The priority queue of the scheduler\<close>

text \<open>
  \<open>scheduler_queue\<close> is a \<open>std::priority_queue\<close> over a \<open>std::vector\<close> with the comparator
  \<open>CompareTrxPriority\<close>.  The standard defines \<open>push\<close> as \<open>push_back\<close> followed by
  \<open>std::push_heap\<close>, \<open>top\<close> as \<open>front\<close>, and \<open>pop\<close> as \<open>std::pop_heap\<close> followed by
  \<open>pop_back\<close>.  The two heap algorithms are libstdc++'s (GCC is the first compiler the README
  names): \<open>__push_heap\<close> moves a hole up while the parent compares greater than the value,
  \<open>__adjust_heap\<close> moves the hole down to a leaf along the preferred children and then pushes
  the value up from there.
\<close>

type_synonym TrxPriority = "int \<times> uint64_t"

definition CompareTrxPriority :: "TrxPriority \<Rightarrow> TrxPriority \<Rightarrow> bool" where
  "CompareTrxPriority a b = (fst a > fst b)"

function push_heap_loop :: "TrxPriority list \<Rightarrow> nat \<Rightarrow> nat \<Rightarrow> TrxPriority \<Rightarrow> TrxPriority list" where
  "push_heap_loop c holeIndex topIndex v =
     (if holeIndex > topIndex \<and> CompareTrxPriority (c ! ((holeIndex - 1) div 2)) v
      then push_heap_loop (c[holeIndex := c ! ((holeIndex - 1) div 2)]) ((holeIndex - 1) div 2) topIndex v
      else c[holeIndex := v])"
  by pat_completeness auto
termination
  by (relation "measure (\<lambda>(c, holeIndex, topIndex, v). holeIndex)") auto

definition push_heap :: "TrxPriority list \<Rightarrow> TrxPriority list" where
  "push_heap c = (if c = [] then c else push_heap_loop c (length c - 1) 0 (last c))"

function adjust_heap_down :: "TrxPriority list \<Rightarrow> nat \<Rightarrow> nat \<Rightarrow> TrxPriority list \<times> nat" where
  "adjust_heap_down c len holeIndex =
     (if holeIndex < (len - 1) div 2
      then (let secondChild = 2 * (holeIndex + 1);
                child = (if CompareTrxPriority (c ! secondChild) (c ! (secondChild - 1))
                         then secondChild - 1 else secondChild)
            in adjust_heap_down (c[holeIndex := c ! child]) len child)
      else (c, holeIndex))"
  by pat_completeness auto
termination
  by (relation "measure (\<lambda>(c, len, holeIndex). len - holeIndex)") (auto simp: Let_def)

text \<open>
  After the descent the hole has at most one child; that is the case of an even length with
  the hole at \<open>(len - 2) / 2\<close>.  (For \<open>len < 2\<close> the signed arithmetic of the source makes
  the test false.)
\<close>

definition adjust_heap :: "TrxPriority list \<Rightarrow> nat \<Rightarrow> nat \<Rightarrow> TrxPriority \<Rightarrow> TrxPriority list" where
  "adjust_heap c holeIndex len v =
     (case adjust_heap_down c len holeIndex of
        (c1, hole1) \<Rightarrow>
          if len mod 2 = 0 \<and> 2 \<le> len \<and> hole1 = (len - 2) div 2
          then push_heap_loop (c1[hole1 := c1 ! (2 * (hole1 + 1) - 1)]) (2 * (hole1 + 1) - 1) holeIndex v
          else push_heap_loop c1 hole1 holeIndex v)"

definition pop_heap :: "TrxPriority list \<Rightarrow> TrxPriority list" where
  "pop_heap c =
     (if length c > 1
      then adjust_heap (c[length c - 1 := c ! 0]) 0 (length c - 1) (c ! (length c - 1))
      else c)"

definition pq_push :: "TrxPriority \<Rightarrow> TrxPriority list \<Rightarrow> TrxPriority list" where
  "pq_push x c = push_heap (c @ [x])"

definition pq_top :: "TrxPriority list \<Rightarrow> TrxPriority" where
  "pq_top c = c ! 0"

definition pq_pop :: "TrxPriority list \<Rightarrow> TrxPriority list" where
  "pq_pop c = butlast (pop_heap c)"

text \<open>
  The entries a queue yields when it is popped until it is empty: what the DRAINING
  iterations read with \<open>top\<close> and remove with \<open>pop\<close>, one entry per iteration.
\<close>

fun drain_n :: "nat \<Rightarrow> TrxPriority list \<Rightarrow> TrxPriority list" where
  "drain_n 0 q = []"
| "drain_n (Suc k) q = (if q = [] then [] else pq_top q # drain_n k (pq_pop q))"

definition drain_order :: "TrxPriority list \<Rightarrow> TrxPriority list" where
  "drain_order q = drain_n (length q) q"

text \<open>
  The heap property of the first \<open>n\<close> elements of the vector under \<open>CompareTrxPriority\<close>: no
  element has a smaller priority than its parent.  \<open>hole_ok\<close> is the invariant of
  \<open>__push_heap\<close> (the value \<open>v\<close> is to be placed at the hole \<open>h\<close> or above), \<open>descended\<close> what the
  descent of the hole in \<open>__adjust_heap\<close> keeps.
\<close>

definition parent_ok :: "TrxPriority list \<Rightarrow> nat \<Rightarrow> bool" where
  "parent_ok c i = (fst (c ! ((i - 1) div 2)) \<le> fst (c ! i))"

definition is_heap :: "nat \<Rightarrow> TrxPriority list \<Rightarrow> bool" where
  "is_heap n c = (\<forall>i. 0 < i \<and> i < n \<longrightarrow> parent_ok c i)"

definition hole_ok :: "nat \<Rightarrow> TrxPriority list \<Rightarrow> nat \<Rightarrow> TrxPriority \<Rightarrow> bool" where
  "hole_ok n c h v =
     (h < n \<and> n \<le> length c \<and>
      (\<forall>i. 0 < i \<and> i < n \<and> i \<noteq> h \<longrightarrow> parent_ok c i) \<and>
      (\<forall>i. 0 < i \<and> i < n \<and> (i - 1) div 2 = h \<longrightarrow>
           fst v \<le> fst (c ! i) \<and> (0 < h \<longrightarrow> fst (c ! ((h - 1) div 2)) \<le> fst (c ! i))))"

definition descended ::
  "nat \<Rightarrow> TrxPriority list \<Rightarrow> nat \<Rightarrow> TrxPriority list \<Rightarrow> nat \<Rightarrow> bool" where
  "descended len c h c1 h1 =
     (is_heap len c1 \<and> h1 < len \<and> (len - 1) div 2 \<le> h1 \<and> length c1 = length c \<and>
      (\<forall>x. mset (c1[h1 := x]) = mset (c[h := x])) \<and> (\<forall>j. len \<le> j \<longrightarrow> c1 ! j = c ! j))"

section \<open>The epoch scheduler: state\<close>

text \<open>
  The globals of the scheduler, the \<open>TrxWaitInfo\<close> objects that are alive (keyed by
  address), the scheduler thread, the worker threads that are inside \<open>scheduler_request\<close> and
  the thread that is inside \<open>scheduler_shutdown\<close>.  Of a waiter, \<open>mtx\<close> says that its mutex is
  held across steps (only its worker holds it that long: between the test of the predicate and
  the block inside \<open>cv.wait\<close>), and \<open>cv\<close> that a thread is blocked on its condition variable.
  \<open>trx_wait_map\<close> is an association list with one entry per key; the shutdown path iterates
  over it in the order of the list (the order of an \<open>unordered_map\<close> is unspecified).

  A thread is a program counter with its local variables.  Every step is what the thread does
  between two points where another thread can observe or change shared data: one critical
  section, one access to a waiter outside a critical section, or the work on thread-local data
  before the next lock.  A step that needs a mutex another thread holds changes nothing.  The
  generator \<open>std::mt19937\<close> is not modelled: \<open>rng_seed\<close> is the value last given to
  \<open>rng.seed\<close> (5489 for a default-constructed generator), and the value
  \<open>get_random_priority\<close> returns is an input of the step that draws it.  Spurious wake-ups of
  \<open>cv.wait\<close> are not modelled.
\<close>

datatype EpochState = COLLECTING | DRAINING

record TrxWaitInfo =
  mtx :: bool
  cv :: bool
  is_ready :: bool

datatype worker_pc = At_push | At_insert | At_wait | At_block | Blocked | At_delete | Returned

record worker =
  trx_lib_id :: uint64_t
  priority_entry :: TrxPriority
  wait_info_ptr :: nat
  pc :: worker_pc

datatype sched_pc =
  At_loop | At_collect | At_move "TrxPriority list" | At_drain | At_signal nat | At_notify nat |
  At_scope_exit nat | Exited

datatype shutdown_pc =
  At_join | At_set_ready nat "(uint64_t \<times> nat) list" | At_notify_all nat "(uint64_t \<times> nat) list" | At_clear

record scheduler_state =
  g_epoch_state :: EpochState
  EPOCH_DURATION_MS :: int
  scheduler_thread :: "sched_pc option"
  scheduler_running :: bool
  pending_requests :: "TrxPriority list"
  trx_wait_map :: "(uint64_t \<times> nat) list"
  scheduler_queue :: "TrxPriority list"
  rng_seed :: int
  wait_objects :: "nat \<rightharpoonup> TrxWaitInfo"
  next_wait_addr :: nat
  workers :: "nat \<rightharpoonup> worker"
  shutdown_caller :: "shutdown_pc option"

definition initial_scheduler :: scheduler_state where
  "initial_scheduler =
     \<lparr>g_epoch_state = COLLECTING, EPOCH_DURATION_MS = 5, scheduler_thread = None,
      scheduler_running = False, pending_requests = [], trx_wait_map = [],
      scheduler_queue = [], rng_seed = 5489, wait_objects = Map.empty, next_wait_addr = 1,
      workers = Map.empty, shutdown_caller = None\<rparr>"

text \<open>
  \<open>joining\<close>: a thread is inside \<open>scheduler_shutdown\<close>, past the exchange on
  \<open>scheduler_running\<close>.  \<open>global_mutex_held\<close>: that thread is in its loop over the waiter map,
  which it runs under \<open>scheduler_global_mutex\<close> (every other critical section of that mutex is
  a single step).
\<close>

definition joining :: "scheduler_state \<Rightarrow> bool" where
  "joining s = (shutdown_caller s \<noteq> None)"

definition global_mutex_held :: "scheduler_state \<Rightarrow> bool" where
  "global_mutex_held s =
     (case shutdown_caller s of
        None \<Rightarrow> False
      | Some At_join \<Rightarrow> False
      | Some p \<Rightarrow> True)"

section \<open>The epoch scheduler: \<open>init_rng\<close> and \<open>scheduler_init\<close>\<close>

definition init_rng :: "host_env \<Rightarrow> scheduler_state \<Rightarrow> scheduler_state" where
  "init_rng env s =
     (let seed = (case RANDOM_SEED env of
                    None \<Rightarrow> 42
                  | Some seed_str \<Rightarrow> (case stoi seed_str of Inr v \<Rightarrow> v | Inl e \<Rightarrow> 42))
      in s\<lparr>rng_seed := seed\<rparr>)"

text \<open>
  \<open>scheduler_thread\<close> is \<open>None\<close> while the \<open>std::thread\<close> object is not joinable (never
  started, or joined) and \<open>Some pc\<close> otherwise.  Assigning the new thread to an object that is
  still joinable terminates the process.
\<close>

definition scheduler_init :: "host_env \<Rightarrow> scheduler_state \<Rightarrow> fault + scheduler_state" where
  "scheduler_init env s =
     (let already_running = scheduler_running s;
          s1 = s\<lparr>scheduler_running := True\<rparr>
      in if \<not> already_running
         then (let s2 = (case ISOFUZZ_EPOCH_MS env of
                           None \<Rightarrow> s1
                         | Some epoch_ms_str \<Rightarrow>
                             (case stol epoch_ms_str of
                                Inr ms \<Rightarrow> if ms > 0 then s1\<lparr>EPOCH_DURATION_MS := ms\<rparr> else s1
                              | Inl e \<Rightarrow> s1));
                   s3 = init_rng env s2
               in if scheduler_thread s3 = None
                  then Inr (s3\<lparr>scheduler_thread := Some At_loop\<rparr>)
                  else Inl Terminate_called)
         else Inr s1)"

section \<open>The epoch scheduler: the steps of \<open>scheduler_request\<close>\<close>

text \<open>
  \<open>request_enter\<close>: the worker allocates its waiter and draws its priority.  Then, one step
  each: the push to the pending queue (under \<open>pending_queue_mutex\<close>), the insertion into
  \<open>trx_wait_map\<close> (under \<open>scheduler_global_mutex\<close>), and the wait on the waiter,
  \<open>cv.wait(trx_lock, pred)\<close>, which is \<open>while (!pred()) cv.wait(trx_lock)\<close>: the worker locks
  the waiter's mutex and tests \<open>is_ready\<close> (\<open>At_wait\<close>); if the flag is false it still holds
  the mutex (\<open>At_block\<close>) until \<open>cv.wait\<close> releases it and blocks, in one step (\<open>Blocked\<close>); a
  blocked worker stays blocked until the condition variable is notified, and then tests the
  flag again.  A thread that sets the flag under the waiter's mutex cannot do so between the
  test and the block; a thread that sets it without the mutex can.
  The steps are the same in both versions of the scheduler, except for what follows a
  successful test (\<open>woken\<close>), and except that the map of scheduler.cpp owns the waiter:
  assigning over an entry destroys the waiter that was there.
\<close>

definition map_find :: "uint64_t \<Rightarrow> (uint64_t \<times> nat) list \<Rightarrow> nat option" where
  "map_find k m = map_of m k"

definition map_erase :: "uint64_t \<Rightarrow> (uint64_t \<times> nat) list \<Rightarrow> (uint64_t \<times> nat) list" where
  "map_erase k m = filter (\<lambda>e. fst e \<noteq> k) m"

definition map_assign :: "uint64_t \<Rightarrow> nat \<Rightarrow> (uint64_t \<times> nat) list \<Rightarrow> (uint64_t \<times> nat) list" where
  "map_assign k v m = (k, v) # map_erase k m"

definition set_worker :: "nat \<Rightarrow> worker \<Rightarrow> scheduler_state \<Rightarrow> scheduler_state" where
  "set_worker w wk s = s\<lparr>workers := (workers s)(w \<mapsto> wk)\<rparr>"

definition set_waiter :: "nat \<Rightarrow> TrxWaitInfo \<Rightarrow> scheduler_state \<Rightarrow> scheduler_state" where
  "set_waiter ptr wi s = s\<lparr>wait_objects := (wait_objects s)(ptr \<mapsto> wi)\<rparr>"

definition request_enter :: "nat \<Rightarrow> uint64_t \<Rightarrow> int \<Rightarrow> scheduler_state \<Rightarrow> scheduler_state" where
  "request_enter w lid prio s =
     set_worker w \<lparr>trx_lib_id = lid, priority_entry = (prio, lid),
                   wait_info_ptr = next_wait_addr s, pc = At_push\<rparr>
       (s\<lparr>wait_objects := (wait_objects s)(next_wait_addr s \<mapsto> \<lparr>mtx = False, cv = False, is_ready = False\<rparr>),
          next_wait_addr := Suc (next_wait_addr s)\<rparr>)"

definition request_push :: "nat \<Rightarrow> worker \<Rightarrow> scheduler_state \<Rightarrow> scheduler_state" where
  "request_push w wk s =
     set_worker w (wk\<lparr>pc := At_insert\<rparr>)
       (s\<lparr>pending_requests := pending_requests s @ [priority_entry wk]\<rparr>)"

definition request_test :: "worker_pc \<Rightarrow> nat \<Rightarrow> worker \<Rightarrow> TrxWaitInfo \<Rightarrow> scheduler_state \<Rightarrow> scheduler_state" where
  "request_test woken w wk wi s =
     (if is_ready wi then set_worker w (wk\<lparr>pc := woken\<rparr>) s
      else set_worker w (wk\<lparr>pc := At_block\<rparr>) (set_waiter (wait_info_ptr wk) (wi\<lparr>mtx := True\<rparr>) s))"

definition request_wait :: "worker_pc \<Rightarrow> nat \<Rightarrow> worker \<Rightarrow> scheduler_state \<Rightarrow> fault + scheduler_state" where
  "request_wait woken w wk s =
     (case wait_objects s (wait_info_ptr wk) of
        None \<Rightarrow> Inl Dangling_pointer
      | Some wi \<Rightarrow>
          (case pc wk of
             At_wait \<Rightarrow> Inr (request_test woken w wk wi s)
           | At_block \<Rightarrow>
               Inr (set_worker w (wk\<lparr>pc := Blocked\<rparr>)
                      (set_waiter (wait_info_ptr wk) (wi\<lparr>mtx := False, cv := True\<rparr>) s))
           | Blocked \<Rightarrow> if cv wi then Inr s else Inr (request_test woken w wk wi s)
           | _ \<Rightarrow> Inr s))"

text \<open>logger.cpp: the map holds raw pointers; the woken worker deletes its waiter.\<close>

definition request_step :: "nat \<Rightarrow> scheduler_state \<Rightarrow> fault + scheduler_state" where
  "request_step w s =
     (case workers s w of
        None \<Rightarrow> Inr s
      | Some wk \<Rightarrow>
          (case pc wk of
             At_push \<Rightarrow> Inr (request_push w wk s)
           | At_insert \<Rightarrow>
               if global_mutex_held s then Inr s
               else Inr (set_worker w (wk\<lparr>pc := At_wait\<rparr>)
                           (s\<lparr>trx_wait_map := map_assign (trx_lib_id wk) (wait_info_ptr wk) (trx_wait_map s)\<rparr>))
           | At_delete \<Rightarrow>
               Inr (set_worker w (wk\<lparr>pc := Returned\<rparr>)
                      (s\<lparr>wait_objects := (wait_objects s)(wait_info_ptr wk := None)\<rparr>))
           | Returned \<Rightarrow> Inr s
           | _ \<Rightarrow> request_wait At_delete w wk s))"

text \<open>scheduler.cpp: the map owns the waiter; the woken worker just returns.\<close>

definition destroy_waiter_of :: "uint64_t \<Rightarrow> scheduler_state \<Rightarrow> scheduler_state" where
  "destroy_waiter_of lid s =
     (case map_find lid (trx_wait_map s) of
        None \<Rightarrow> s
      | Some a \<Rightarrow> s\<lparr>wait_objects := (wait_objects s)(a := None)\<rparr>)"

definition request_step_owning :: "nat \<Rightarrow> scheduler_state \<Rightarrow> fault + scheduler_state" where
  "request_step_owning w s =
     (case workers s w of
        None \<Rightarrow> Inr s
      | Some wk \<Rightarrow>
          (case pc wk of
             At_push \<Rightarrow> Inr (request_push w wk s)
           | At_insert \<Rightarrow>
               if global_mutex_held s then Inr s
               else (let s1 = destroy_waiter_of (trx_lib_id wk) s
                     in Inr (set_worker w (wk\<lparr>pc := At_wait\<rparr>)
                               (s1\<lparr>trx_wait_map := map_assign (trx_lib_id wk) (wait_info_ptr wk) (trx_wait_map s1)\<rparr>)))
           | At_delete \<Rightarrow> Inr s
           | Returned \<Rightarrow> Inr s
           | _ \<Rightarrow> request_wait Returned w wk s))"

section \<open>The epoch scheduler: the steps of \<open>trx_scheduler_run\<close>\<close>

text \<open>
  One iteration of the thread's loop is: the test of \<open>scheduler_running\<close> and of
  \<open>g_epoch_state\<close> (\<open>At_loop\<close>); in COLLECTING the sleep and the swap of the pending queue
  (\<open>At_collect\<close>), then the move of the local queue into \<open>scheduler_queue\<close> and the switch to
  DRAINING (\<open>At_move\<close>); in DRAINING the critical section that pops the queue and looks the
  waiter up (\<open>At_drain\<close>), then the critical section of the waiter's mutex that sets the flag
  (\<open>At_signal\<close>), then \<open>cv.notify_one()\<close>, after the mutex has been released (\<open>At_notify\<close>).
  The move and the pop are under \<open>scheduler_global_mutex\<close>.
\<close>

definition set_thread :: "sched_pc \<Rightarrow> scheduler_state \<Rightarrow> scheduler_state" where
  "set_thread p s = s\<lparr>scheduler_thread := Some p\<rparr>"

definition sched_loop :: "scheduler_state \<Rightarrow> scheduler_state" where
  "sched_loop s =
     set_thread (if \<not> scheduler_running s then Exited
                 else if g_epoch_state s = COLLECTING then At_collect else At_drain) s"

definition sched_collect :: "scheduler_state \<Rightarrow> scheduler_state" where
  "sched_collect s =
     (if pending_requests s = [] then set_thread At_loop s
      else set_thread (At_move (pending_requests s)) (s\<lparr>pending_requests := []\<rparr>))"

definition sched_move :: "TrxPriority list \<Rightarrow> scheduler_state \<Rightarrow> scheduler_state" where
  "sched_move local_pending s =
     set_thread At_loop
       (s\<lparr>scheduler_queue := foldl (\<lambda>q x. pq_push x q) (scheduler_queue s) local_pending,
          g_epoch_state := DRAINING\<rparr>)"

text \<open>logger.cpp: a popped identifier without a waiter fails the assertion.\<close>

definition sched_drain :: "scheduler_state \<Rightarrow> fault + scheduler_state" where
  "sched_drain s =
     (if scheduler_queue s = [] then Inr (set_thread At_loop (s\<lparr>g_epoch_state := COLLECTING\<rparr>))
      else (let next_trx_id = snd (pq_top (scheduler_queue s));
                s1 = s\<lparr>scheduler_queue := pq_pop (scheduler_queue s)\<rparr>
            in case map_find next_trx_id (trx_wait_map s1) of
                 Some ptr \<Rightarrow>
                   Inr (set_thread (At_signal ptr)
                          (s1\<lparr>trx_wait_map := map_erase next_trx_id (trx_wait_map s1)\<rparr>))
               | None \<Rightarrow> Inl Assertion_failed))"

text \<open>
  The signal, in both versions: the flag is set under the waiter's mutex; the notification
  follows outside it, on a waiter that by then may have been destroyed.
\<close>

definition sched_signal :: "nat \<Rightarrow> scheduler_state \<Rightarrow> fault + scheduler_state" where
  "sched_signal ptr s =
     (case wait_objects s ptr of
        None \<Rightarrow> Inl Dangling_pointer
      | Some wi \<Rightarrow>
          if mtx wi then Inr s
          else Inr (set_thread (At_notify ptr) (set_waiter ptr (wi\<lparr>is_ready := True\<rparr>) s)))"

definition sched_notify :: "nat \<Rightarrow> sched_pc \<Rightarrow> scheduler_state \<Rightarrow> fault + scheduler_state" where
  "sched_notify ptr next s =
     (case wait_objects s ptr of
        None \<Rightarrow> Inl Dangling_pointer
      | Some wi \<Rightarrow> Inr (set_thread next (set_waiter ptr (wi\<lparr>cv := False\<rparr>) s)))"

definition sched_step :: "scheduler_state \<Rightarrow> fault + scheduler_state" where
  "sched_step s =
     (case scheduler_thread s of
        None \<Rightarrow> Inr s
      | Some At_loop \<Rightarrow> Inr (sched_loop s)
      | Some At_collect \<Rightarrow> Inr (sched_collect s)
      | Some (At_move local_pending) \<Rightarrow>
          if global_mutex_held s then Inr s else Inr (sched_move local_pending s)
      | Some At_drain \<Rightarrow> if global_mutex_held s then Inr s else sched_drain s
      | Some (At_signal ptr) \<Rightarrow> sched_signal ptr s
      | Some (At_notify ptr) \<Rightarrow> sched_notify ptr At_loop s
      | Some (At_scope_exit ptr) \<Rightarrow> Inr s
      | Some Exited \<Rightarrow> Inr s)"

text \<open>
  scheduler.cpp: a popped identifier without a waiter is skipped; the waiter found is moved
  out of the map into a local \<open>unique_ptr\<close>, which destroys it where its block ends, after
  the notification (\<open>At_scope_exit\<close>).
\<close>

definition sched_drain_owning :: "scheduler_state \<Rightarrow> scheduler_state" where
  "sched_drain_owning s =
     (if scheduler_queue s = [] then set_thread At_loop (s\<lparr>g_epoch_state := COLLECTING\<rparr>)
      else (let next_trx_id = snd (pq_top (scheduler_queue s));
                s1 = s\<lparr>scheduler_queue := pq_pop (scheduler_queue s)\<rparr>
            in case map_find next_trx_id (trx_wait_map s1) of
                 Some ptr \<Rightarrow>
                   set_thread (At_signal ptr)
                     (s1\<lparr>trx_wait_map := map_erase next_trx_id (trx_wait_map s1)\<rparr>)
               | None \<Rightarrow> set_thread At_loop s1))"

definition sched_step_owning :: "scheduler_state \<Rightarrow> fault + scheduler_state" where
  "sched_step_owning s =
     (case scheduler_thread s of
        None \<Rightarrow> Inr s
      | Some At_loop \<Rightarrow> Inr (sched_loop s)
      | Some At_collect \<Rightarrow> Inr (sched_collect s)
      | Some (At_move local_pending) \<Rightarrow>
          if global_mutex_held s then Inr s else Inr (sched_move local_pending s)
      | Some At_drain \<Rightarrow> if global_mutex_held s then Inr s else Inr (sched_drain_owning s)
      | Some (At_signal ptr) \<Rightarrow> sched_signal ptr s
      | Some (At_notify ptr) \<Rightarrow> sched_notify ptr (At_scope_exit ptr) s
      | Some (At_scope_exit ptr) \<Rightarrow>
          Inr (set_thread At_loop (s\<lparr>wait_objects := (wait_objects s)(ptr := None)\<rparr>))
      | Some Exited \<Rightarrow> Inr s)"

section \<open>The epoch scheduler: \<open>scheduler_shutdown\<close>\<close>

text \<open>
  \<open>shutdown_enter\<close> is the exchange on \<open>scheduler_running\<close>.  A caller that found the
  scheduler running then joins the thread (\<open>At_join\<close>): it is blocked until the thread has
  left its loop.  It then locks \<open>scheduler_global_mutex\<close> and, for every entry of the map,
  writes the flag of the waiter, without the waiter's mutex (\<open>At_set_ready\<close>), and calls
  \<open>cv.notify_all()\<close> (\<open>At_notify_all\<close>); then it clears the map (\<open>At_clear\<close>), which in
  scheduler.cpp destroys the waiters the map owns.  One thread at a time is inside the
  function: a second caller that arrives while the first is still inside is taken to be
  delayed until the first has returned.
\<close>

definition shutdown_enter :: "scheduler_state \<Rightarrow> scheduler_state" where
  "shutdown_enter s =
     (if scheduler_running s \<and> \<not> joining s
      then s\<lparr>scheduler_running := False, shutdown_caller := Some At_join\<rparr> else s)"

definition thread_has_exited :: "scheduler_state \<Rightarrow> bool" where
  "thread_has_exited s = (scheduler_thread s = None \<or> scheduler_thread s = Some Exited)"

definition shutdown_next :: "(uint64_t \<times> nat) list \<Rightarrow> shutdown_pc" where
  "shutdown_next entries = (case entries of [] \<Rightarrow> At_clear | e # rest \<Rightarrow> At_set_ready (snd e) rest)"

fun destroy_all :: "(uint64_t \<times> nat) list \<Rightarrow> (nat \<rightharpoonup> TrxWaitInfo) \<Rightarrow> (nat \<rightharpoonup> TrxWaitInfo)" where
  "destroy_all [] objs = objs"
| "destroy_all (e # rest) objs = destroy_all rest (objs(snd e := None))"

text \<open>The steps up to the clearing of the map, the same in both versions.\<close>

definition shutdown_loop :: "shutdown_pc \<Rightarrow> scheduler_state \<Rightarrow> fault + scheduler_state" where
  "shutdown_loop p s =
     (case p of
        At_join \<Rightarrow>
          if thread_has_exited s
          then Inr (s\<lparr>scheduler_thread := None, shutdown_caller := Some (shutdown_next (trx_wait_map s))\<rparr>)
          else Inr s
      | At_set_ready ptr rest \<Rightarrow>
          (case wait_objects s ptr of
             None \<Rightarrow> Inl Dangling_pointer
           | Some wi \<Rightarrow>
               Inr (set_waiter ptr (wi\<lparr>is_ready := True\<rparr>) (s\<lparr>shutdown_caller := Some (At_notify_all ptr rest)\<rparr>)))
      | At_notify_all ptr rest \<Rightarrow>
          (case wait_objects s ptr of
             None \<Rightarrow> Inl Dangling_pointer
           | Some wi \<Rightarrow>
               Inr (set_waiter ptr (wi\<lparr>cv := False\<rparr>) (s\<lparr>shutdown_caller := Some (shutdown_next rest)\<rparr>)))
      | At_clear \<Rightarrow> Inr s)"

definition shutdown_finish :: "scheduler_state \<Rightarrow> fault + scheduler_state" where
  "shutdown_finish s =
     (case shutdown_caller s of
        None \<Rightarrow> Inr s
      | Some At_clear \<Rightarrow> Inr (s\<lparr>trx_wait_map := [], shutdown_caller := None\<rparr>)
      | Some p \<Rightarrow> shutdown_loop p s)"

definition shutdown_finish_owning :: "scheduler_state \<Rightarrow> fault + scheduler_state" where
  "shutdown_finish_owning s =
     (case shutdown_caller s of
        None \<Rightarrow> Inr s
      | Some At_clear \<Rightarrow>
          Inr (s\<lparr>wait_objects := destroy_all (trx_wait_map s) (wait_objects s), trx_wait_map := [],
                 shutdown_caller := None\<rparr>)
      | Some p \<Rightarrow> shutdown_loop p s)"

section \<open>Interleavings\<close>

text \<open>
  An execution is a list of actions: which thread takes its next step.  \<open>Enter w lid prio\<close>
  is worker \<open>w\<close> calling \<open>scheduler_request\<close> for \<open>lid\<close> and drawing \<open>prio\<close>;
  \<open>Shutdown_finish\<close> is the next step of the thread inside \<open>scheduler_shutdown\<close>.  A fault ends
  the execution.  \<open>exec\<close> runs the scheduler of logger.cpp, \<open>exec_owning\<close> the one of
  scheduler.cpp.
\<close>

datatype action = Init host_env | Enter nat uint64_t int | Worker nat | Sched | Shutdown_enter | Shutdown_finish

fun step :: "action \<Rightarrow> scheduler_state \<Rightarrow> fault + scheduler_state" where
  "step (Init env) s = scheduler_init env s"
| "step (Enter w lid prio) s = Inr (request_enter w lid prio s)"
| "step (Worker w) s = request_step w s"
| "step Sched s = sched_step s"
| "step Shutdown_enter s = Inr (shutdown_enter s)"
| "step Shutdown_finish s = shutdown_finish s"

fun exec :: "action list \<Rightarrow> scheduler_state \<Rightarrow> fault + scheduler_state" where
  "exec [] s = Inr s"
| "exec (a # as) s = (case step a s of Inl e \<Rightarrow> Inl e | Inr s1 \<Rightarrow> exec as s1)"

fun step_owning :: "action \<Rightarrow> scheduler_state \<Rightarrow> fault + scheduler_state" where
  "step_owning (Init env) s = scheduler_init env s"
| "step_owning (Enter w lid prio) s = Inr (request_enter w lid prio s)"
| "step_owning (Worker w) s = request_step_owning w s"
| "step_owning Sched s = sched_step_owning s"
| "step_owning Shutdown_enter s = Inr (shutdown_enter s)"
| "step_owning Shutdown_finish s = shutdown_finish_owning s"

fun exec_owning :: "action list \<Rightarrow> scheduler_state \<Rightarrow> fault + scheduler_state" where
  "exec_owning [] s = Inr s"
| "exec_owning (a # as) s = (case step_owning a s of Inl e \<Rightarrow> Inl e | Inr s1 \<Rightarrow> exec_owning as s1)"

text \<open>
  What an execution does to the queues and the waiters: \<open>Submitted ptr x\<close> when a worker enters
  \<open>scheduler_request\<close>, allocates its waiter at \<open>ptr\<close> and draws the entry \<open>x\<close>; \<open>Swapped b\<close>
  when a COLLECTING iteration swaps the non-empty pending queue \<open>b\<close> out; \<open>Popped x found\<close>
  when a DRAINING iteration pops \<open>x\<close>, with the waiter the map holds for its identifier, if
  any; \<open>Released ptr\<close> when the scheduler thread sets the flag of the waiter at \<open>ptr\<close>.  (In
  logger.cpp a popped entry without a waiter fails the assertion, which ends the execution.)
  \<open>events\<close> is for the scheduler of logger.cpp, \<open>events_owning\<close> for the one of
  scheduler.cpp.
\<close>

datatype event =
  Submitted nat TrxPriority | Swapped "TrxPriority list" | Popped TrxPriority "nat option" | Released nat

definition observe :: "action \<Rightarrow> scheduler_state \<Rightarrow> event list" where
  "observe a s =
     (case a of
        Enter w lid prio \<Rightarrow> [Submitted (next_wait_addr s) (prio, lid)]
      | Sched \<Rightarrow>
          (case scheduler_thread s of
             Some At_collect \<Rightarrow> if pending_requests s = [] then [] else [Swapped (pending_requests s)]
           | Some At_drain \<Rightarrow>
               if global_mutex_held s \<or> scheduler_queue s = [] then []
               else [Popped (pq_top (scheduler_queue s))
                            (map_find (snd (pq_top (scheduler_queue s))) (trx_wait_map s))]
           | Some (At_signal ptr) \<Rightarrow>
               (case wait_objects s ptr of
                  None \<Rightarrow> []
                | Some wi \<Rightarrow> if mtx wi then [] else [Released ptr])
           | _ \<Rightarrow> [])
      | _ \<Rightarrow> [])"

fun events :: "action list \<Rightarrow> scheduler_state \<Rightarrow> event list" where
  "events [] s = []"
| "events (a # as) s = (case step a s of Inl e \<Rightarrow> [] | Inr s1 \<Rightarrow> observe a s @ events as s1)"

fun events_owning :: "action list \<Rightarrow> scheduler_state \<Rightarrow> event list" where
  "events_owning [] s = []"
| "events_owning (a # as) s =
     (case step_owning a s of Inl e \<Rightarrow> [] | Inr s1 \<Rightarrow> observe a s @ events_owning as s1)"

text \<open>
  Read off a list of events: the batches swapped out; the entries popped; the entries popped
  whose waiter was found, with that waiter; the waiters released; and the entry that was
  submitted with a waiter.
\<close>

fun batches :: "event list \<Rightarrow> TrxPriority list list" where
  "batches [] = []"
| "batches (Swapped b # es) = b # batches es"
| "batches (e # es) = batches es"

fun pops :: "event list \<Rightarrow> TrxPriority list" where
  "pops [] = []"
| "pops (Popped x found # es) = x # pops es"
| "pops (e # es) = pops es"

fun found_pops :: "event list \<Rightarrow> (TrxPriority \<times> nat) list" where
  "found_pops [] = []"
| "found_pops (Popped x (Some ptr) # es) = (x, ptr) # found_pops es"
| "found_pops (e # es) = found_pops es"

fun releases :: "event list \<Rightarrow> nat list" where
  "releases [] = []"
| "releases (Released ptr # es) = ptr # releases es"
| "releases (e # es) = releases es"

fun submissions :: "event list \<Rightarrow> (nat \<times> TrxPriority) list" where
  "submissions [] = []"
| "submissions (Submitted ptr x # es) = (ptr, x) # submissions es"
| "submissions (e # es) = submissions es"

definition drawn :: "event list \<Rightarrow> nat \<Rightarrow> TrxPriority option" where
  "drawn es ptr = map_of (submissions es) ptr"

text \<open>
  \<open>batch_order b\<close> is the order in which the batch \<open>b\<close>, moved into the empty priority queue,
  is popped.
\<close>

definition batch_order :: "TrxPriority list \<Rightarrow> TrxPriority list" where
  "batch_order b = drain_order (foldl (\<lambda>q x. pq_push x q) [] b)"

text \<open>
  The pops \<open>P\<close> follow the batches \<open>B\<close> epoch by epoch: every batch but the last has been popped
  whole, in its order, and what has been popped of the last batch is a prefix of its order.
\<close>

definition in_order :: "TrxPriority list list \<Rightarrow> TrxPriority list \<Rightarrow> bool" where
  "in_order B P =
     (prefix (concat (map batch_order (butlast B))) P \<and> prefix P (concat (map batch_order B)))"

text \<open>
  \<open>scheduler_shutdown\<close> called while no other thread takes a step: the scheduler thread is
  at most four steps away from leaving its loop once \<open>scheduler_running\<close> is false, and the
  caller takes one step to join it, two for every entry of the map and one to clear it.
\<close>

definition scheduler_shutdown :: "scheduler_state \<Rightarrow> fault + scheduler_state" where
  "scheduler_shutdown s =
     exec ([Shutdown_enter, Sched, Sched, Sched, Sched] @
           replicate (2 * length (trx_wait_map s) + 2) Shutdown_finish) s"

section \<open>The public entry points (isofuzz.cpp)\<close>

text \<open>
  The process-wide state of the library: the registry, the log sink and the scheduler.
  An entry point given a non-null handle dereferences it without consulting the registry;
  the dereference of a handle whose record has been destroyed is the fault
  \<open>Dangling_pointer\<close>.
\<close>

record isofuzz =
  ctx :: IsoFuzzContext
  logger :: logger_state
  sched :: scheduler_state

definition initial_isofuzz :: isofuzz where
  "initial_isofuzz =
     \<lparr>ctx = \<lparr>m_transactions = Map.empty, next_lib_id = 1, trx_objects = Map.empty, next_trx_addr = 1\<rparr>,
      logger = \<lparr>g_file = None, g_out_ptr = Cout, written = []\<rparr>,
      sched = initial_scheduler\<rparr>"

definition op_type_to_string :: "IsoFuzzOpType \<Rightarrow> string" where
  "op_type_to_string op_type =
     (case op_type of
        READ \<Rightarrow> ''READ''
      | WRITE_UPDATE \<Rightarrow> ''UPDATE''
      | WRITE_INSERT \<Rightarrow> ''INSERT''
      | WRITE_DELETE \<Rightarrow> ''DELETE''
      | TXN_PROMOTE \<Rightarrow> ''PROMOTE''
      | TXN_BEGIN \<Rightarrow> ''BEGIN''
      | TXN_COMMIT \<Rightarrow> ''COMMIT'')"

text \<open>The text \<open>log_generic_op\<close> assembles in its string stream for the record \<open>trx\<close>.\<close>

definition log_text :: "IsoFuzzTrxImpl \<Rightarrow> IsoFuzzOpType \<Rightarrow> IsoFuzzObject option \<Rightarrow> uint64_t \<Rightarrow> string" where
  "log_text trx op_type object last_writer_trx_id =
     (let effective_trx_id = (if dbms_id trx = 0 then lib_id trx else dbms_id trx)
      in thread_id trx @ [TAB] @ show_u64 effective_trx_id @ [TAB] @ op_type_to_string op_type @ [TAB] @
         (case object of
            Some obj \<Rightarrow>
              table_name obj @ [TAB] @
              (case column_name obj of Some col \<Rightarrow> col | None \<Rightarrow> ''N/A'') @ [TAB] @
              show_u64 (row_identifier obj) @ [TAB]
          | None \<Rightarrow> ''N/A'' @ [TAB] @ ''N/A'' @ [TAB] @ ''N/A'' @ [TAB]) @
         (if op_type = TXN_PROMOTE then show_u64 last_writer_trx_id
          else if op_type = READ \<or> op_type = WRITE_UPDATE \<or> op_type = WRITE_DELETE
          then show_u64 last_writer_trx_id
          else ''0''))"

definition log_generic_op ::
  "isofuzz_trx_t \<Rightarrow> IsoFuzzOpType \<Rightarrow> IsoFuzzObject option \<Rightarrow> uint64_t \<Rightarrow> isofuzz \<Rightarrow> fault + isofuzz" where
  "log_generic_op trx_handle op_type object last_writer_trx_id g =
     (case get_trx trx_handle of
        None \<Rightarrow> Inr g
      | Some p \<Rightarrow>
          (case trx_objects (ctx g) p of
             None \<Rightarrow> Inl Dangling_pointer
           | Some trx \<Rightarrow>
               Inr (g\<lparr>logger := logger_log_line (log_text trx op_type object last_writer_trx_id) (logger g)\<rparr>)))"

definition isofuzz_init :: "host_env \<Rightarrow> isofuzz \<Rightarrow> fault + isofuzz" where
  "isofuzz_init env g =
     (case scheduler_init env (sched g) of
        Inl e \<Rightarrow> Inl e
      | Inr s \<Rightarrow> Inr (g\<lparr>logger := logger_init env (logger g), sched := s\<rparr>))"

definition isofuzz_shutdown :: "isofuzz \<Rightarrow> fault + isofuzz" where
  "isofuzz_shutdown g =
     (case scheduler_shutdown (sched g) of
        Inl e \<Rightarrow> Inl e
      | Inr s \<Rightarrow> Inr (g\<lparr>sched := s, logger := logger_shutdown (logger g)\<rparr>))"

definition isofuzz_trx_begin :: "string \<Rightarrow> isofuzz \<Rightarrow> fault + isofuzz_trx_t \<times> isofuzz" where
  "isofuzz_trx_begin caller g =
     (case begin_trx caller (ctx g) of
        (handle, c) \<Rightarrow>
          if handle = 0 then Inr (0, g\<lparr>ctx := c\<rparr>)
          else (case log_generic_op handle TXN_BEGIN None 0 (g\<lparr>ctx := c\<rparr>) of
                  Inl e \<Rightarrow> Inl e
                | Inr g1 \<Rightarrow> Inr (handle, g1)))"

definition isofuzz_trx_commit :: "isofuzz_trx_t \<Rightarrow> isofuzz \<Rightarrow> fault + isofuzz" where
  "isofuzz_trx_commit trx_handle g =
     (if trx_handle = 0 then Inr g else log_generic_op trx_handle TXN_COMMIT None 0 g)"

definition isofuzz_trx_promote :: "isofuzz_trx_t \<Rightarrow> uint64_t \<Rightarrow> isofuzz \<Rightarrow> fault + isofuzz" where
  "isofuzz_trx_promote trx_handle new_dbms_id g =
     (case get_trx trx_handle of
        None \<Rightarrow> Inr g
      | Some p \<Rightarrow>
          (case trx_objects (ctx g) p of
             None \<Rightarrow> Inl Dangling_pointer
           | Some trx \<Rightarrow>
               log_generic_op trx_handle TXN_PROMOTE None (lib_id trx)
                 (g\<lparr>ctx := (ctx g)\<lparr>trx_objects := (trx_objects (ctx g))(p \<mapsto> trx\<lparr>dbms_id := new_dbms_id\<rparr>)\<rparr>\<rparr>)))"

definition isofuzz_trx_end :: "isofuzz_trx_t \<Rightarrow> isofuzz \<Rightarrow> fault + isofuzz" where
  "isofuzz_trx_end trx_handle g =
     (case end_trx trx_handle (ctx g) of Inl e \<Rightarrow> Inl e | Inr c \<Rightarrow> Inr (g\<lparr>ctx := c\<rparr>))"

text \<open>
  \<open>isofuzz_schedule_op\<close> up to the point where the calling thread, worker \<open>w\<close>, is inside
  \<open>scheduler_request\<close> with the priority \<open>prio\<close> drawn; the worker's later steps are those of
  the scheduler.
\<close>

definition isofuzz_schedule_op ::
  "nat \<Rightarrow> int \<Rightarrow> isofuzz_trx_t \<Rightarrow> IsoFuzzSchedulerIntent \<Rightarrow> isofuzz \<Rightarrow> fault + isofuzz" where
  "isofuzz_schedule_op w prio trx_handle intent g =
     (case get_trx trx_handle of
        None \<Rightarrow> Inr g
      | Some p \<Rightarrow>
          (case trx_objects (ctx g) p of
             None \<Rightarrow> Inl Dangling_pointer
           | Some trx \<Rightarrow> Inr (g\<lparr>sched := request_enter w (lib_id trx) prio (sched g)\<rparr>)))"

definition isofuzz_log_op ::
  "isofuzz_trx_t \<Rightarrow> IsoFuzzOpType \<Rightarrow> IsoFuzzObject \<Rightarrow> uint64_t \<Rightarrow> isofuzz \<Rightarrow> fault + isofuzz" where
  "isofuzz_log_op trx_handle op_type object last_writer_trx_id g =
     log_generic_op trx_handle op_type (Some object) last_writer_trx_id g"

section \<open>Sequences of calls\<close>

text \<open>
  A call of an entry point, with the identifier of the calling thread where the call has a
  transaction; \<open>Thread_step a\<close> is a step of a thread inside the scheduler.  \<open>api_run\<close> runs a
  sequence of calls; a fault ends it.
\<close>

datatype api_call =
    Call_init host_env
  | Call_shutdown
  | Call_begin string
  | Call_promote string isofuzz_trx_t uint64_t
  | Call_commit string isofuzz_trx_t
  | Call_end string isofuzz_trx_t
  | Call_schedule string nat int isofuzz_trx_t IsoFuzzSchedulerIntent
  | Call_log string isofuzz_trx_t IsoFuzzOpType IsoFuzzObject uint64_t
  | Thread_step action

fun api_step :: "api_call \<Rightarrow> isofuzz \<Rightarrow> fault + isofuzz" where
  "api_step (Call_init env) g = isofuzz_init env g"
| "api_step Call_shutdown g = isofuzz_shutdown g"
| "api_step (Call_begin caller) g =
     (case isofuzz_trx_begin caller g of Inl e \<Rightarrow> Inl e | Inr r \<Rightarrow> Inr (snd r))"
| "api_step (Call_promote caller h new_dbms_id) g = isofuzz_trx_promote h new_dbms_id g"
| "api_step (Call_commit caller h) g = isofuzz_trx_commit h g"
| "api_step (Call_end caller h) g = isofuzz_trx_end h g"
| "api_step (Call_schedule caller w prio h intent) g = isofuzz_schedule_op w prio h intent g"
| "api_step (Call_log caller h op_type object last_writer_trx_id) g =
     isofuzz_log_op h op_type object last_writer_trx_id g"
| "api_step (Thread_step a) g =
     (case step a (sched g) of Inl e \<Rightarrow> Inl e | Inr s \<Rightarrow> Inr (g\<lparr>sched := s\<rparr>))"

fun api_run :: "api_call list \<Rightarrow> isofuzz \<Rightarrow> fault + isofuzz" where
  "api_run [] g = Inr g"
| "api_run (c # cs) g = (case api_step c g of Inl e \<Rightarrow> Inl e | Inr g1 \<Rightarrow> api_run cs g1)"

text \<open>Whether a call promotes the transaction \<open>h\<close>, and whether it writes a log line for \<open>h\<close>.\<close>

fun promotes :: "isofuzz_trx_t \<Rightarrow> api_call \<Rightarrow> bool" where
  "promotes h (Call_promote caller h' new_dbms_id) = (h' = h)"
| "promotes h c = False"

fun logs_for :: "isofuzz_trx_t \<Rightarrow> api_call \<Rightarrow> bool" where
  "logs_for h (Call_promote caller h' new_dbms_id) = (h' = h)"
| "logs_for h (Call_commit caller h') = (h' = h)"
| "logs_for h (Call_log caller h' op_type object last_writer_trx_id) = (h' = h)"
| "logs_for h c = False"

text \<open>
  Invariants of the registry.  \<open>ctx_ok\<close>: every record lives at a non-null address below the
  next one to be handed out.  \<open>kept h promoted g g'\<close>: if the record at \<open>h\<close> is alive in \<open>g'\<close>, it
  was alive in \<open>g\<close> with the same \<open>lib_id\<close> and \<open>thread_id\<close>, and with the same \<open>dbms_id\<close> unless
  it was promoted in between.
\<close>

definition ctx_ok :: "IsoFuzzContext \<Rightarrow> bool" where
  "ctx_ok c = (0 < next_trx_addr c \<and> (\<forall>a trx. trx_objects c a = Some trx \<longrightarrow> 0 < a \<and> a < next_trx_addr c))"

definition kept :: "isofuzz_trx_t \<Rightarrow> bool \<Rightarrow> isofuzz \<Rightarrow> isofuzz \<Rightarrow> bool" where
  "kept h promoted g g' =
     (case trx_objects (ctx g') h of
        None \<Rightarrow> True
      | Some trx' \<Rightarrow>
          (case trx_objects (ctx g) h of
             None \<Rightarrow> False
           | Some trx \<Rightarrow> lib_id trx' = lib_id trx \<and> thread_id trx' = thread_id trx \<and>
                         (promoted \<or> dbms_id trx' = dbms_id trx)))"

section \<open>Environments and objects of the examples\<close>

definition env0 :: host_env where
  "env0 = \<lparr>RANDOM_SEED = None, OUT_FILE = None, ISOFUZZ_EPOCH_MS = None, can_append = (\<lambda>p. True)\<rparr>"

definition env_file :: host_env where
  "env_file = \<lparr>RANDOM_SEED = None, OUT_FILE = Some ''trace.log'', ISOFUZZ_EPOCH_MS = None,
     can_append = (\<lambda>p. True)\<rparr>"

definition env_unwritable :: host_env where
  "env_unwritable = \<lparr>RANDOM_SEED = None, OUT_FILE = Some ''/nonexistent/trace.log'',
     ISOFUZZ_EPOCH_MS = None, can_append = (\<lambda>p. False)\<rparr>"

definition env_prefix :: host_env where
  "env_prefix = \<lparr>RANDOM_SEED = Some ''12abc'', OUT_FILE = None, ISOFUZZ_EPOCH_MS = Some ''7ms'',
     can_append = (\<lambda>p. True)\<rparr>"

definition env_garbage :: host_env where
  "env_garbage = \<lparr>RANDOM_SEED = Some ''abc'', OUT_FILE = None, ISOFUZZ_EPOCH_MS = Some ''-3'',
     can_append = (\<lambda>p. True)\<rparr>"

definition object_t_c_42 :: IsoFuzzObject where
  "object_t_c_42 = \<lparr>table_name = ''t'', column_name = Some ''c'', row_identifier = 42\<rparr>"

section \<open>The invariant of the priority queue\<close>

text \<open>
  What the scheduler thread maintains, for the batches \<open>B\<close> swapped out and the entries \<open>P\<close>
  popped so far: the priority queue is a heap that holds what is left of the last batch; it is
  empty in COLLECTING; between the swap and the move the last batch is still in the thread's
  local queue and every earlier batch has been popped.
\<close>

definition popped_so_far :: "TrxPriority list \<Rightarrow> TrxPriority list list \<Rightarrow> TrxPriority list \<Rightarrow> bool" where
  "popped_so_far q B P =
     ((B = [] \<and> P = [] \<and> q = []) \<or>
      (B \<noteq> [] \<and>
       (\<exists>k. P = concat (map batch_order (butlast B)) @ take k (batch_order (last B)) \<and>
             drain_order q = drop k (batch_order (last B)))))"

definition queue_inv ::
  "sched_pc option \<Rightarrow> TrxPriority list \<Rightarrow> EpochState \<Rightarrow> TrxPriority list list \<Rightarrow> TrxPriority list \<Rightarrow> bool" where
  "queue_inv t q e B P =
     (is_heap (length q) q \<and> (e = COLLECTING \<longrightarrow> q = []) \<and> (t = Some At_collect \<longrightarrow> q = []) \<and>
      (case t of
         Some (At_move b) \<Rightarrow> q = [] \<and> B \<noteq> [] \<and> last B = b \<and> P = concat (map batch_order (butlast B))
       | _ \<Rightarrow> popped_so_far q B P))"

definition thread_inv :: "scheduler_state \<Rightarrow> TrxPriority list list \<Rightarrow> TrxPriority list \<Rightarrow> bool" where
  "thread_inv s B P = queue_inv (scheduler_thread s) (scheduler_queue s) (g_epoch_state s) B P"

text \<open>
  Two workers submit in the first epoch; the first is released; a third worker submits while
  the second is still queued, and the library is shut down.
\<close>

definition late_request_run :: "action list" where
  "late_request_run =
     [Init env0, Enter 1 1 7, Worker 1, Worker 1, Enter 2 2 9, Worker 2, Worker 2,
      Sched, Sched, Sched, Sched, Sched, Sched, Sched,
      Enter 3 3 1, Worker 3, Worker 3, Shutdown_enter, Sched,
      Shutdown_finish, Shutdown_finish, Shutdown_finish, Shutdown_finish, Shutdown_finish,
      Shutdown_finish, Worker 3, Worker 3]"

section \<open>Which worker a pop releases\<close>

text \<open>
  An execution is \<open>orderly\<close> when the scheduler is never shut down and every request is
  made by a thread that is not already inside \<open>scheduler_request\<close>, for a transaction no
  other thread has a request in flight for.  \<open>ws\<close> are the threads that have made a request
  so far; \<open>stp\<close> is the step function of the version that runs.
\<close>

definition may_enter :: "nat list \<Rightarrow> nat \<Rightarrow> uint64_t \<Rightarrow> scheduler_state \<Rightarrow> bool" where
  "may_enter ws w lid s =
     list_all (\<lambda>w'. case workers s w' of
                      None \<Rightarrow> True
                    | Some wk \<Rightarrow> pc wk = Returned \<or> (w' \<noteq> w \<and> trx_lib_id wk \<noteq> lid)) (w # ws)"

definition permitted :: "nat list \<Rightarrow> action \<Rightarrow> scheduler_state \<Rightarrow> bool" where
  "permitted ws a s =
     (case a of Enter w lid prio \<Rightarrow> may_enter ws w lid s | Shutdown_enter \<Rightarrow> False | _ \<Rightarrow> True)"

definition entered :: "action \<Rightarrow> nat list \<Rightarrow> nat list" where
  "entered a ws = (case a of Enter w lid prio \<Rightarrow> w # ws | _ \<Rightarrow> ws)"

fun orderly ::
  "(action \<Rightarrow> scheduler_state \<Rightarrow> fault + scheduler_state) \<Rightarrow> nat list \<Rightarrow> action list \<Rightarrow> scheduler_state \<Rightarrow> bool" where
  "orderly stp ws [] s = True"
| "orderly stp ws (a # as) s =
     (permitted ws a s \<and>
      (case stp a s of Inl e \<Rightarrow> True | Inr s1 \<Rightarrow> orderly stp (entered a ws) as s1))"

text \<open>
  \<open>found_ok\<close>: every waiter a pop found in the map was submitted with the entry popped.
\<close>

definition found_ok :: "event list \<Rightarrow> bool" where
  "found_ok es = list_all (\<lambda>f. drawn es (snd f) = Some (fst f)) (found_pops es)"

text \<open>
  The invariant of an orderly execution.  Of the state it reads the workers, the entries that
  are in the pending queue, in the local queue of the scheduler thread or in the priority
  queue (\<open>queued\<close>), the waiter map, which flags are set (\<open>ready\<close>), the waiter whose flag the
  scheduler thread is about to set (\<open>signal_pending\<close>) and the next address.  It says: every
  worker was submitted with its waiter and its entry; waiters are not shared; a transaction
  has one request in flight; every queued entry belongs to a worker that has pushed it and
  not yet seen its flag; the queued entries are of different transactions; a worker that has
  not inserted its waiter yet, or whose entry is queued, has not been released; and every
  entry of the map is the waiter of a worker parked for that transaction and not released.
\<close>

definition waiting :: "worker_pc \<Rightarrow> bool" where
  "waiting p = (p = At_insert \<or> p = At_wait \<or> p = At_block \<or> p = Blocked)"

definition parked :: "worker_pc \<Rightarrow> bool" where
  "parked p = (p = At_wait \<or> p = At_block \<or> p = Blocked)"

definition ready :: "scheduler_state \<Rightarrow> nat \<Rightarrow> bool" where
  "ready s ptr = (case wait_objects s ptr of None \<Rightarrow> False | Some wi \<Rightarrow> is_ready wi)"

definition local_batch :: "scheduler_state \<Rightarrow> TrxPriority list" where
  "local_batch s = (case scheduler_thread s of Some (At_move b) \<Rightarrow> b | _ \<Rightarrow> [])"

definition signal_pending :: "scheduler_state \<Rightarrow> nat list" where
  "signal_pending s = (case scheduler_thread s of Some (At_signal ptr) \<Rightarrow> [ptr] | _ \<Rightarrow> [])"

definition queued :: "scheduler_state \<Rightarrow> TrxPriority list" where
  "queued s = pending_requests s @ local_batch s @ scheduler_queue s"

definition linked ::
  "nat list \<Rightarrow> (nat \<rightharpoonup> worker) \<Rightarrow> TrxPriority list \<Rightarrow> (uint64_t \<times> nat) list \<Rightarrow> (nat \<Rightarrow> bool) \<Rightarrow>
   nat list \<Rightarrow> nat \<Rightarrow> (nat \<times> TrxPriority) list \<Rightarrow> bool" where
  "linked ws W Q M R sp n S =
     ((\<forall>w wk. W w = Some wk \<longrightarrow>
         w \<in> set ws \<and> snd (priority_entry wk) = trx_lib_id wk \<and> wait_info_ptr wk < n \<and>
         map_of S (wait_info_ptr wk) = Some (priority_entry wk)) \<and>
      (\<forall>e \<in> set S. fst e < n) \<and>
      (\<forall>p \<in> set sp. p < n) \<and>
      (\<forall>w w' wk wk'. W w = Some wk \<and> W w' = Some wk' \<and> wait_info_ptr wk = wait_info_ptr wk' \<longrightarrow> w = w') \<and>
      (\<forall>w w' wk wk'. W w = Some wk \<and> W w' = Some wk' \<and> pc wk \<noteq> Returned \<and> pc wk' \<noteq> Returned \<and>
          trx_lib_id wk = trx_lib_id wk' \<longrightarrow> w = w') \<and>
      (\<forall>x \<in> set Q. \<exists>w wk. W w = Some wk \<and> priority_entry wk = x \<and> waiting (pc wk)) \<and>
      distinct (map snd Q) \<and>
      (\<forall>w wk. W w = Some wk \<and>
          (pc wk = At_push \<or> pc wk = At_insert \<or> (parked (pc wk) \<and> priority_entry wk \<in> set Q)) \<longrightarrow>
          \<not> R (wait_info_ptr wk) \<and> wait_info_ptr wk \<notin> set sp) \<and>
      (\<forall>e \<in> set M.
          \<not> R (snd e) \<and> snd e \<notin> set sp \<and>
          (\<exists>w wk. W w = Some wk \<and> trx_lib_id wk = fst e \<and> wait_info_ptr wk = snd e \<and> parked (pc wk))))"

definition link_inv :: "nat list \<Rightarrow> scheduler_state \<Rightarrow> (nat \<times> TrxPriority) list \<Rightarrow> bool" where
  "link_inv ws s S =
     (shutdown_caller s = None \<and> is_heap (length (scheduler_queue s)) (scheduler_queue s) \<and>
      linked ws (workers s) (queued s) (trx_wait_map s) (ready s) (signal_pending s) (next_wait_addr s) S)"

text \<open>
  Two orderly executions.  In the first, two workers submit in the first epoch and a third
  after the swap; in the second, four workers submit in one epoch with the priorities 50, 10,
  90 and 30.  The scheduler thread runs until it has released them all.
\<close>

definition two_epochs_run :: "action list" where
  "two_epochs_run =
     [Init env0, Enter 1 1 7, Worker 1, Worker 1, Enter 2 2 9, Worker 2, Worker 2, Sched, Sched,
      Enter 3 3 1, Worker 3, Worker 3,
      Sched, Sched, Sched, Sched, Sched, Sched, Sched, Sched, Sched, Sched, Sched,
      Sched, Sched, Sched, Sched, Sched, Sched, Sched]"

definition four_requests_run :: "action list" where
  "four_requests_run =
     [Init env0, Enter 1 1 50, Worker 1, Worker 1, Enter 2 2 10, Worker 2, Worker 2,
      Enter 3 3 90, Worker 3, Worker 3, Enter 4 4 30, Worker 4, Worker 4,
      Sched, Sched, Sched,
      Sched, Sched, Sched, Sched, Sched, Sched, Sched, Sched, Sched, Sched,
      Sched, Sched, Sched, Sched, Sched, Sched, Sched, Sched, Sched, Sched]"

text \<open>
  Two executions that are not orderly: two requests in flight for one transaction; and a
  shutdown that leaves a batch in the priority queue, followed by a new start.
\<close>

definition shared_lib_id_run :: "action list" where
  "shared_lib_id_run =
     [Init env0, Enter 1 1 50, Worker 1, Enter 2 1 30, Worker 2, Worker 2, Worker 1,
      Sched, Sched, Sched, Sched, Sched, Sched]"

definition restart_run :: "action list" where
  "restart_run =
     [Init env0, Enter 1 1 7, Worker 1, Worker 1, Enter 2 2 9, Worker 2, Worker 2, Sched, Sched, Sched,
      Shutdown_enter, Sched, Shutdown_finish, Shutdown_finish, Shutdown_finish, Shutdown_finish,
      Shutdown_finish, Shutdown_finish, Worker 1, Worker 1,
      Init env0, Enter 1 1 3, Worker 1, Worker 1, Sched, Sched, Sched]"

section \<open>Unfolding rules for concrete executions\<close>

lemmas sched_defs = env0_def initial_scheduler_def scheduler_init_def init_rng_def request_enter_def
  request_push_def request_test_def request_wait_def request_step_def request_step_owning_def
  set_worker_def set_waiter_def set_thread_def joining_def global_mutex_held_def
  sched_loop_def sched_collect_def sched_move_def sched_drain_def sched_drain_owning_def sched_signal_def
  sched_notify_def sched_step_def sched_step_owning_def shutdown_enter_def shutdown_next_def
  shutdown_loop_def shutdown_finish_def shutdown_finish_owning_def
  thread_has_exited_def map_find_def map_erase_def map_assign_def destroy_waiter_of_def
  pq_push_def pq_top_def pq_pop_def push_heap_def pop_heap_def adjust_heap_def CompareTrxPriority_def Let_def
  push_heap_loop.simps adjust_heap_down.simps

lemmas api_defs = initial_isofuzz_def isofuzz_trx_begin_def begin_trx_def destroy_owned_def
  log_generic_op_def get_trx_def logger_log_line_def current_sink_def isofuzz_trx_end_def end_trx_def
  isofuzz_trx_promote_def isofuzz_log_op_def isofuzz_trx_commit_def isofuzz_schedule_op_def Let_def

lemmas run_defs = api_defs isofuzz_init_def logger_init_def env0_def object_t_c_42_def

declare show_nat.simps [simp del] push_heap_loop.simps [simp del] adjust_heap_down.simps [simp del]

section \<open>The fields of a log line\<close>

lemma digit_char_not_tab: "d < 10 \<Longrightarrow> digit_char d \<noteq> TAB"
proof -
  assume "d < 10"
  then have "digit_char d \<in> set ''0123456789''"
    unfolding digit_char_def by (intro nth_mem) simp
  moreover have "TAB \<notin> set ''0123456789''"
    by (simp add: TAB_def)
  ultimately show ?thesis by metis
qed

lemma show_nat_no_tab: "TAB \<notin> set (show_nat n)"
proof (induction n rule: show_nat.induct)
  case (1 n)
  show ?case
  proof (cases "n < 10")
    case True
    then have "digit_char n \<noteq> TAB" by (rule digit_char_not_tab)
    then show ?thesis using True by (auto simp: show_nat.simps [of n])
  next
    case False
    then have "TAB \<notin> set (show_nat (n div 10))" using 1 by simp
    moreover have "digit_char (n mod 10) \<noteq> TAB" by (rule digit_char_not_tab) simp
    ultimately show ?thesis using False by (auto simp: show_nat.simps [of n])
  qed
qed

lemma show_u64_no_tab: "TAB \<notin> set (show_u64 w)"
  by (simp add: show_u64_def show_nat_no_tab)

lemma split_tab_nonempty: "split_tab s \<noteq> []"
  by (induction s) (auto split: list.splits)

lemma split_tab_no_tab: "TAB \<notin> set a \<Longrightarrow> split_tab a = [a]"
  by (induction a) (auto split: list.splits)

lemma split_tab_field: "TAB \<notin> set a \<Longrightarrow> split_tab (a @ TAB # b) = a # split_tab b"
  by (induction a) (auto split: list.splits simp: split_tab_nonempty)

lemma split_tab_na: "split_tab (CHR ''N'' # CHR ''/'' # CHR ''A'' # TAB # b) = ''N/A'' # split_tab b"
  by (simp add: TAB_def split_tab_nonempty split: list.splits)

lemma split_tab_zero: "split_tab [CHR ''0''] = [''0'']"
  by (simp add: TAB_def)

lemma op_name_no_tab: "TAB \<notin> set (op_type_to_string op)"
  by (cases op) (simp_all add: op_type_to_string_def TAB_def)

lemma log_text_prefix:
  assumes "TAB \<notin> set (thread_id trx)"
  shows "\<exists>rest. split_tab (log_text trx op obj lw) =
           thread_id trx # show_u64 (if dbms_id trx = 0 then lib_id trx else dbms_id trx) #
           op_type_to_string op # rest"
  using assms
  by (simp add: log_text_def Let_def split_tab_field show_u64_no_tab op_name_no_tab)

lemma log_text_no_object:
  assumes "TAB \<notin> set (thread_id trx)"
  shows "split_tab (log_text trx op None lw) =
           [thread_id trx, show_u64 (if dbms_id trx = 0 then lib_id trx else dbms_id trx),
            op_type_to_string op, ''N/A'', ''N/A'', ''N/A'',
            (if op = TXN_PROMOTE \<or> op = READ \<or> op = WRITE_UPDATE \<or> op = WRITE_DELETE
             then show_u64 lw else ''0'')]"
  using assms
  by (simp add: log_text_def Let_def split_tab_field split_tab_no_tab show_u64_no_tab op_name_no_tab
      split_tab_na split_tab_zero del: split_tab.simps)

lemma hd_fields:
  assumes "TAB \<notin> set (thread_id trx)"
  shows "hd (split_tab (log_text trx op obj lw)) = thread_id trx"
  using log_text_prefix [OF assms, of op obj lw] by auto

lemma second_field:
  assumes "TAB \<notin> set (thread_id trx)"
  shows "split_tab (log_text trx op obj lw) ! 1 =
           show_u64 (if dbms_id trx = 0 then lib_id trx else dbms_id trx)"
  using log_text_prefix [OF assms, of op obj lw] by auto

section \<open>The registry keeps the records of live transactions\<close>

lemma destroy_owned_objects:
  "trx_objects (destroy_owned i c) a = Some trx \<Longrightarrow> trx_objects c a = Some trx"
  by (auto simp: destroy_owned_def split: option.splits if_splits)

lemma destroy_owned_next: "next_trx_addr (destroy_owned i c) = next_trx_addr c"
  by (simp add: destroy_owned_def split: option.splits)

lemma ctx_ok_destroy: "ctx_ok c \<Longrightarrow> ctx_ok (destroy_owned i c)"
  unfolding ctx_ok_def by (metis destroy_owned_objects destroy_owned_next)

lemma begin_trx_handle: "fst (begin_trx caller c) = next_trx_addr c"
  by (simp add: begin_trx_def Let_def)

lemma begin_trx_new_record:
  "trx_objects (snd (begin_trx caller c)) (next_trx_addr c) =
     Some \<lparr>lib_id = next_lib_id c, dbms_id = 0, thread_id = caller\<rparr>"
  by (simp add: begin_trx_def Let_def)

lemma begin_trx_old_records:
  "a \<noteq> next_trx_addr c \<Longrightarrow> trx_objects (snd (begin_trx caller c)) a = Some trx \<Longrightarrow>
   trx_objects c a = Some trx"
  by (auto simp: begin_trx_def Let_def dest!: destroy_owned_objects)

lemma begin_trx_next: "next_trx_addr (snd (begin_trx caller c)) = Suc (next_trx_addr c)"
  by (simp add: begin_trx_def Let_def destroy_owned_next)

lemma ctx_ok_begin: "ctx_ok c \<Longrightarrow> ctx_ok (snd (begin_trx caller c))"
  unfolding ctx_ok_def
  by (metis begin_trx_old_records begin_trx_next less_Suc_eq zero_less_Suc)

lemma log_generic_op_ctx: "log_generic_op h op obj lw g = Inr g' \<Longrightarrow> ctx g' = ctx g"
  by (auto simp: log_generic_op_def split: option.splits)

lemma log_generic_op_live:
  assumes "trx_objects (ctx g) h = Some trx" and "0 < h"
  shows "log_generic_op h op obj lw g =
           Inr (g\<lparr>logger := logger_log_line (log_text trx op obj lw) (logger g)\<rparr>)"
  using assms by (simp add: log_generic_op_def get_trx_def)

lemma written_log_line: "written (logger_log_line line L) = written L @ [(current_sink L, line)]"
  by (simp add: logger_log_line_def)

lemma kept_same_ctx: "ctx g' = ctx g \<Longrightarrow> kept h b g g'"
  by (simp add: kept_def split: option.splits)

lemma kept_trans:
  "kept h b1 g g1 \<Longrightarrow> kept h b2 g1 g2 \<Longrightarrow> kept h (b1 \<or> b2) g g2"
  by (auto simp: kept_def split: option.splits)

lemma api_step_inv:
  assumes ok: "ctx_ok (ctx g)" and lt: "h < next_trx_addr (ctx g)" and st: "api_step c g = Inr g'"
  shows "ctx_ok (ctx g') \<and> h < next_trx_addr (ctx g') \<and> kept h (promotes h c) g g'"
proof (cases c)
  case (Call_init env)
  then have "ctx g' = ctx g" using st by (auto simp: isofuzz_init_def split: sum.splits)
  then show ?thesis using ok lt by (simp add: kept_same_ctx)
next
  case Call_shutdown
  then have "ctx g' = ctx g" using st by (auto simp: isofuzz_shutdown_def split: sum.splits)
  then show ?thesis using ok lt by (simp add: kept_same_ctx)
next
  case (Call_begin caller)
  have "ctx g' = snd (begin_trx caller (ctx g))"
    using st Call_begin
    by (auto simp: isofuzz_trx_begin_def split: prod.splits if_splits sum.splits dest!: log_generic_op_ctx)
  moreover have "kept h False g (g\<lparr>ctx := snd (begin_trx caller (ctx g))\<rparr>)"
  proof (cases "trx_objects (snd (begin_trx caller (ctx g))) h")
    case None
    then show ?thesis by (simp add: kept_def)
  next
    case (Some trx')
    moreover from lt have "h \<noteq> next_trx_addr (ctx g)" by simp
    ultimately have "trx_objects (ctx g) h = Some trx'" by (rule begin_trx_old_records [rotated])
    with Some show ?thesis by (simp add: kept_def)
  qed
  ultimately show ?thesis
    using ok lt Call_begin by (auto simp: ctx_ok_begin begin_trx_next kept_def split: option.splits)
next
  case (Call_promote caller h' n)
  show ?thesis
  proof (cases "h' = 0")
    case True
    then have "g' = g" using st Call_promote by (simp add: isofuzz_trx_promote_def get_trx_def)
    then show ?thesis using ok lt by (simp add: kept_same_ctx)
  next
    case False
    then obtain trx where live: "trx_objects (ctx g) h' = Some trx"
      using st Call_promote by (auto simp: isofuzz_trx_promote_def get_trx_def split: option.splits)
    have c': "ctx g' = (ctx g)\<lparr>trx_objects := (trx_objects (ctx g))(h' \<mapsto> trx\<lparr>dbms_id := n\<rparr>)\<rparr>"
      using st Call_promote False live
      by (auto simp: isofuzz_trx_promote_def get_trx_def dest!: log_generic_op_ctx)
    have "ctx_ok (ctx g')" using ok live unfolding c' ctx_ok_def by auto
    moreover have "kept h (promotes h c) g g'"
      using live Call_promote unfolding kept_def c' by (auto split: option.splits)
    ultimately show ?thesis using lt c' by simp
  qed
next
  case (Call_commit caller h')
  then have "ctx g' = ctx g"
    using st by (auto simp: isofuzz_trx_commit_def split: if_splits dest!: log_generic_op_ctx)
  then show ?thesis using ok lt by (simp add: kept_same_ctx)
next
  case (Call_end caller h')
  then have "ctx g' = ctx g \<or> (\<exists>i. ctx g' = destroy_owned i (ctx g))"
    using st by (auto simp: isofuzz_trx_end_def end_trx_def split: if_splits sum.splits option.splits)
  then show ?thesis
  proof
    assume "ctx g' = ctx g"
    then show ?thesis using ok lt by (simp add: kept_same_ctx)
  next
    assume "\<exists>i. ctx g' = destroy_owned i (ctx g)"
    then obtain i where i: "ctx g' = destroy_owned i (ctx g)" ..
    have "kept h (promotes h c) g g'"
      unfolding kept_def i by (auto split: option.splits dest: destroy_owned_objects)
    then show ?thesis using ok lt i by (simp add: ctx_ok_destroy destroy_owned_next)
  qed
next
  case (Call_schedule caller w prio h' intent)
  then have "ctx g' = ctx g"
    using st by (auto simp: isofuzz_schedule_op_def split: option.splits)
  then show ?thesis using ok lt by (simp add: kept_same_ctx)
next
  case (Call_log caller h' op obj lw)
  then have "ctx g' = ctx g"
    using st by (auto simp: isofuzz_log_op_def dest!: log_generic_op_ctx)
  then show ?thesis using ok lt by (simp add: kept_same_ctx)
next
  case (Thread_step a)
  then have "ctx g' = ctx g" using st by (auto split: sum.splits)
  then show ?thesis using ok lt by (simp add: kept_same_ctx)
qed

lemma api_run_inv:
  assumes "ctx_ok (ctx g)" and "h < next_trx_addr (ctx g)" and "api_run cs g = Inr g'"
  shows "ctx_ok (ctx g') \<and> h < next_trx_addr (ctx g') \<and> kept h (list_ex (promotes h) cs) g g'"
  using assms
proof (induction cs arbitrary: g)
  case Nil
  then show ?case by (simp add: kept_same_ctx)
next
  case (Cons c cs)
  then obtain g1 where s1: "api_step c g = Inr g1" and r1: "api_run cs g1 = Inr g'"
    by (auto split: sum.splits)
  from api_step_inv [OF Cons.prems(1,2) s1]
  have a: "ctx_ok (ctx g1)" "h < next_trx_addr (ctx g1)" "kept h (promotes h c) g g1" by simp_all
  from Cons.IH [OF a(1,2) r1]
  have b: "ctx_ok (ctx g')" "h < next_trx_addr (ctx g')" "kept h (list_ex (promotes h) cs) g1 g'" by simp_all
  from kept_trans [OF a(3) b(3)] b(1,2) show ?case by simp
qed

lemma ctx_ok_initial: "ctx_ok (ctx initial_isofuzz)"
  by (simp add: ctx_ok_def initial_isofuzz_def)

lemma reachable_ctx_ok: "api_run cs initial_isofuzz = Inr g \<Longrightarrow> ctx_ok (ctx g)"
proof -
  assume "api_run cs initial_isofuzz = Inr g"
  from api_run_inv [OF ctx_ok_initial _ this, of 0] show ?thesis
    by (simp add: initial_isofuzz_def)
qed

lemma begin_result:
  assumes ok: "ctx_ok (ctx g0)" and b: "isofuzz_trx_begin t g0 = Inr (h, g1)"
  shows "h = next_trx_addr (ctx g0) \<and> 0 < h \<and> ctx g1 = snd (begin_trx t (ctx g0)) \<and>
         logger g1 = logger_log_line (log_text \<lparr>lib_id = next_lib_id (ctx g0), dbms_id = 0, thread_id = t\<rparr> TXN_BEGIN None 0) (logger g0)"
proof -
  have pos: "0 < next_trx_addr (ctx g0)" using ok by (simp add: ctx_ok_def)
  obtain c where c: "begin_trx t (ctx g0) = (next_trx_addr (ctx g0), c)"
    using begin_trx_handle [of t "ctx g0"] by (cases "begin_trx t (ctx g0)") simp
  have rec: "trx_objects c (next_trx_addr (ctx g0)) = Some \<lparr>lib_id = next_lib_id (ctx g0), dbms_id = 0, thread_id = t\<rparr>"
    using begin_trx_new_record [of t "ctx g0"] c by simp
  show ?thesis
    using b pos c rec by (auto simp: isofuzz_trx_begin_def log_generic_op_def get_trx_def)
qed

lemma logging_step:
  assumes lg: "logs_for h c" and st: "api_step c g = Inr g'" and hpos: "0 < h"
  shows "\<exists>trx' op obj lw. trx_objects (ctx g') h = Some trx' \<and>
           logger g' = logger_log_line (log_text trx' op obj lw) (logger g)"
proof (cases c)
  case (Call_promote caller h' n)
  with lg have [simp]: "h' = h" by simp
  obtain trx where live: "trx_objects (ctx g) h = Some trx"
    using st Call_promote hpos
    by (auto simp: isofuzz_trx_promote_def get_trx_def split: option.splits)
  have "trx_objects (ctx g') h = Some (trx\<lparr>dbms_id := n\<rparr>) \<and>
        logger g' = logger_log_line (log_text (trx\<lparr>dbms_id := n\<rparr>) TXN_PROMOTE None (lib_id trx)) (logger g)"
    using st Call_promote hpos live
    by (auto simp: isofuzz_trx_promote_def log_generic_op_def get_trx_def)
  then show ?thesis by blast
next
  case (Call_commit caller h')
  with lg have [simp]: "h' = h" by simp
  obtain trx where live: "trx_objects (ctx g) h = Some trx"
    using st Call_commit hpos
    by (auto simp: isofuzz_trx_commit_def log_generic_op_def get_trx_def split: option.splits)
  have "trx_objects (ctx g') h = Some trx \<and>
        logger g' = logger_log_line (log_text trx TXN_COMMIT None 0) (logger g)"
    using st Call_commit hpos live
    by (auto simp: isofuzz_trx_commit_def log_generic_op_def get_trx_def)
  then show ?thesis by blast
next
  case (Call_log caller h' op obj lw)
  with lg have [simp]: "h' = h" by simp
  obtain trx where live: "trx_objects (ctx g) h = Some trx"
    using st Call_log hpos
    by (auto simp: isofuzz_log_op_def log_generic_op_def get_trx_def split: option.splits)
  have "trx_objects (ctx g') h = Some trx \<and>
        logger g' = logger_log_line (log_text trx op (Some obj) lw) (logger g)"
    using st Call_log hpos live
    by (auto simp: isofuzz_log_op_def log_generic_op_def get_trx_def)
  then show ?thesis by blast
qed (use lg in simp_all)

section \<open>Claims about the log lines and the handles\<close>

text \<open>
  Claim C10.  The first field of every log line written for a transaction is the identifier
  of the thread that called \<open>isofuzz_trx_begin\<close> for it: in any state \<open>g0\<close> the library can
  reach, after a thread \<open>t\<close> has begun the transaction \<open>h\<close> (which writes the BEGIN line, first
  field \<open>t\<close>) and after any further calls \<open>cs\<close> by any threads, a call \<open>c\<close> that logs for \<open>h\<close>
  (\<open>isofuzz_log_op\<close>, \<open>isofuzz_trx_commit\<close> or \<open>isofuzz_trx_promote\<close>, made by whatever thread)
  writes exactly one line, and the first tab-separated field of that line is \<open>t\<close>.  The
  identifier is assumed to be printed without a tab character.
\<close>

theorem log_lines_carry_begin_thread:
  assumes reach: "api_run cs0 initial_isofuzz = Inr g0"
      and begun: "isofuzz_trx_begin t g0 = Inr (h, g1)"
      and later: "api_run cs g1 = Inr g2"
      and lg: "logs_for h c"
      and logged: "api_step c g2 = Inr g3"
      and notab: "TAB \<notin> set t"
  shows "(\<exists>line0. written (logger g1) = written (logger g0) @ [(current_sink (logger g0), line0)] \<and>
                   hd (split_tab line0) = t) \<and>
         (\<exists>line. written (logger g3) = written (logger g2) @ [(current_sink (logger g2), line)] \<and>
                  hd (split_tab line) = t)"
proof -
  have ok0: "ctx_ok (ctx g0)" using reach by (rule reachable_ctx_ok)
  from begin_result [OF ok0 begun]
  have h: "h = next_trx_addr (ctx g0)" "0 < h" and c1: "ctx g1 = snd (begin_trx t (ctx g0))"
    and l1: "logger g1 = logger_log_line
               (log_text \<lparr>lib_id = next_lib_id (ctx g0), dbms_id = 0, thread_id = t\<rparr> TXN_BEGIN None 0)
               (logger g0)"
    by simp_all
  have first: "\<exists>line0. written (logger g1) = written (logger g0) @ [(current_sink (logger g0), line0)] \<and>
                        hd (split_tab line0) = t"
    using l1 notab by (simp add: written_log_line hd_fields)
  have ok1: "ctx_ok (ctx g1)" using ok0 c1 by (simp add: ctx_ok_begin)
  have lt1: "h < next_trx_addr (ctx g1)" using h c1 by (simp add: begin_trx_next)
  have rec1: "trx_objects (ctx g1) h = Some \<lparr>lib_id = next_lib_id (ctx g0), dbms_id = 0, thread_id = t\<rparr>"
    using h c1 by (simp add: begin_trx_new_record)
  from api_run_inv [OF ok1 lt1 later]
  have ok2: "ctx_ok (ctx g2)" and lt2: "h < next_trx_addr (ctx g2)"
    and k2: "kept h (list_ex (promotes h) cs) g1 g2"
    by simp_all
  from api_step_inv [OF ok2 lt2 logged]
  have k3: "kept h (promotes h c) g2 g3" by simp
  from logging_step [OF lg logged h(2)] obtain trx' op obj lw
    where live3: "trx_objects (ctx g3) h = Some trx'"
      and l3: "logger g3 = logger_log_line (log_text trx' op obj lw) (logger g2)" by blast
  have "thread_id trx' = t"
    using kept_trans [OF k2 k3] live3 rec1 by (auto simp: kept_def split: option.splits)
  then have "\<exists>line. written (logger g3) = written (logger g2) @ [(current_sink (logger g2), line)] \<and>
                    hd (split_tab line) = t"
    using l3 notab by (simp add: written_log_line hd_fields)
  with first show ?thesis by simp
qed

theorem log_lines_carry_begin_thread_witness:
  "\<exists>g1 g2 g3 line.
     api_run [] initial_isofuzz = Inr initial_isofuzz \<and>
     isofuzz_trx_begin ''T1'' initial_isofuzz = Inr (1, g1) \<and>
     api_run [Call_promote ''T2'' 1 9999] g1 = Inr g2 \<and>
     logs_for 1 (Call_log ''T2'' 1 READ object_t_c_42 7) \<and>
     api_step (Call_log ''T2'' 1 READ object_t_c_42 7) g2 = Inr g3 \<and>
     TAB \<notin> set ''T1'' \<and>
     written (logger g3) = written (logger g2) @ [(current_sink (logger g2), line)] \<and>
     hd (split_tab line) = ''T1''"
proof -
  have r0: "api_run [] initial_isofuzz = Inr initial_isofuzz" by simp
  obtain g1 where b: "isofuzz_trx_begin ''T1'' initial_isofuzz = Inr (1, g1)"
    by (simp add: run_defs)
  obtain g2 where r: "api_run [Call_promote ''T2'' 1 9999] g1 = Inr g2"
    using b by (auto simp: run_defs)
  have lg: "logs_for 1 (Call_log ''T2'' 1 READ object_t_c_42 7)" by simp
  obtain g3 where l: "api_step (Call_log ''T2'' 1 READ object_t_c_42 7) g2 = Inr g3"
    using b r by (auto simp: run_defs)
  have nt: "TAB \<notin> set ''T1''" by (simp add: TAB_def)
  from log_lines_carry_begin_thread [OF r0 b r lg l nt] r0 b r lg l nt
  show ?thesis by blast
qed

text \<open>
  Claim C3, as stated, fails for \<open>isofuzz_trx_promote h 0\<close>: zero is the value of \<open>dbms_id\<close>
  that means "not promoted", so the PROMOTE line carries the \<open>lib_id\<close> (here 1) as its
  effective identifier, not the new identifier 0.
\<close>

theorem promote_to_zero_logs_lib_id:
  "(case api_run [Call_begin ''T1'', Call_promote ''T1'' 1 0] initial_isofuzz of
      Inl e \<Rightarrow> False
    | Inr g \<Rightarrow>
        map (\<lambda>e. split_tab (snd e)) (written (logger g)) =
          [[''T1'', ''1'', ''BEGIN'', ''N/A'', ''N/A'', ''N/A'', ''0''],
           [''T1'', ''1'', ''PROMOTE'', ''N/A'', ''N/A'', ''N/A'', ''1'']]) \<and>
   show_u64 0 = ''0''"
  by (simp add: run_defs log_text_def op_type_to_string_def show_u64_def show_nat.simps digit_char_def
      TAB_def)

text \<open>
  Claim C3, amended.  For a live transaction \<open>h\<close> with record \<open>trx\<close> in a reachable state:
  every line \<open>log_generic_op\<close> writes for it carries, as its second field, the \<open>dbms_id\<close> when
  that is non-zero and the \<open>lib_id\<close> otherwise, and when no object is given the fields for
  table, column and row are each \<open>N/A\<close>; \<open>isofuzz_trx_promote h new_id\<close> with a non-zero
  \<open>new_id\<close> writes exactly one line, whose fields are the thread, \<open>new_id\<close>, \<open>PROMOTE\<close>,
  three times \<open>N/A\<close> and the old \<open>lib_id\<close>; and after it, whatever calls follow, as long as
  none of them promotes \<open>h\<close> again, every \<open>isofuzz_log_op\<close> on \<open>h\<close> writes one line whose second
  field is \<open>new_id\<close>.
\<close>

theorem effective_id_and_promote:
  assumes reach: "api_run cs0 initial_isofuzz = Inr g"
      and live: "trx_objects (ctx g) h = Some trx"
      and notab: "TAB \<notin> set (thread_id trx)"
      and nz: "new_id \<noteq> 0"
  shows "(\<forall>op obj lw. \<exists>line.
            log_generic_op h op obj lw g = Inr (g\<lparr>logger := logger_log_line line (logger g)\<rparr>) \<and>
            split_tab line ! 1 = show_u64 (if dbms_id trx = 0 then lib_id trx else dbms_id trx) \<and>
            (obj = None \<longrightarrow> take 3 (drop 3 (split_tab line)) = [''N/A'', ''N/A'', ''N/A''])) \<and>
         (\<exists>g1 line.
            isofuzz_trx_promote h new_id g = Inr g1 \<and>
            written (logger g1) = written (logger g) @ [(current_sink (logger g), line)] \<and>
            split_tab line =
              [thread_id trx, show_u64 new_id, ''PROMOTE'', ''N/A'', ''N/A'', ''N/A'', show_u64 (lib_id trx)] \<and>
            (\<forall>cs g2 op obj lw g3.
               \<not> list_ex (promotes h) cs \<and> api_run cs g1 = Inr g2 \<and>
               isofuzz_log_op h op obj lw g2 = Inr g3 \<longrightarrow>
               (\<exists>line'. written (logger g3) = written (logger g2) @ [(current_sink (logger g2), line')] \<and>
                        split_tab line' ! 1 = show_u64 new_id)))"
proof -
  have ok: "ctx_ok (ctx g)" using reach by (rule reachable_ctx_ok)
  have hpos: "0 < h" and hlt: "h < next_trx_addr (ctx g)" using ok live by (auto simp: ctx_ok_def)
  have part1: "\<forall>op obj lw. \<exists>line.
            log_generic_op h op obj lw g = Inr (g\<lparr>logger := logger_log_line line (logger g)\<rparr>) \<and>
            split_tab line ! 1 = show_u64 (if dbms_id trx = 0 then lib_id trx else dbms_id trx) \<and>
            (obj = None \<longrightarrow> take 3 (drop 3 (split_tab line)) = [''N/A'', ''N/A'', ''N/A''])"
  proof (intro allI)
    fix op obj lw
    have "log_generic_op h op obj lw g =
            Inr (g\<lparr>logger := logger_log_line (log_text trx op obj lw) (logger g)\<rparr>)"
      using live hpos by (rule log_generic_op_live)
    moreover have "obj = None \<longrightarrow>
        take 3 (drop 3 (split_tab (log_text trx op obj lw))) = [''N/A'', ''N/A'', ''N/A'']"
      using log_text_no_object [OF notab, of op lw] by simp
    ultimately show "\<exists>line.
            log_generic_op h op obj lw g = Inr (g\<lparr>logger := logger_log_line line (logger g)\<rparr>) \<and>
            split_tab line ! 1 = show_u64 (if dbms_id trx = 0 then lib_id trx else dbms_id trx) \<and>
            (obj = None \<longrightarrow> take 3 (drop 3 (split_tab line)) = [''N/A'', ''N/A'', ''N/A''])"
      using second_field [OF notab, of op obj lw] by blast
  qed
  define trx1 where "trx1 = trx\<lparr>dbms_id := new_id\<rparr>"
  define line where "line = log_text trx1 TXN_PROMOTE None (lib_id trx)"
  define g1 where "g1 = g\<lparr>ctx := (ctx g)\<lparr>trx_objects := (trx_objects (ctx g))(h \<mapsto> trx1)\<rparr>,
                          logger := logger_log_line line (logger g)\<rparr>"
  have prom: "isofuzz_trx_promote h new_id g = Inr g1"
    using live hpos
    by (simp add: isofuzz_trx_promote_def log_generic_op_def get_trx_def g1_def line_def trx1_def)
  have wr: "written (logger g1) = written (logger g) @ [(current_sink (logger g), line)]"
    by (simp add: g1_def written_log_line)
  have notab1: "TAB \<notin> set (thread_id trx1)" using notab by (simp add: trx1_def)
  have fields: "split_tab line =
      [thread_id trx, show_u64 new_id, ''PROMOTE'', ''N/A'', ''N/A'', ''N/A'', show_u64 (lib_id trx)]"
    unfolding line_def using log_text_no_object [OF notab1, of TXN_PROMOTE "lib_id trx"] nz
    by (simp add: trx1_def op_type_to_string_def)
  have ok1: "ctx_ok (ctx g1)" using ok live unfolding ctx_ok_def g1_def by auto
  have lt1: "h < next_trx_addr (ctx g1)" using hlt by (simp add: g1_def)
  have rec1: "trx_objects (ctx g1) h = Some trx1" by (simp add: g1_def)
  have later: "\<exists>line'. written (logger g3) = written (logger g2) @ [(current_sink (logger g2), line')] \<and>
                        split_tab line' ! 1 = show_u64 new_id"
    if np: "\<not> list_ex (promotes h) cs" and run: "api_run cs g1 = Inr g2"
      and lg: "isofuzz_log_op h op obj lw g2 = Inr g3" for cs g2 op obj lw g3
  proof -
    from api_run_inv [OF ok1 lt1 run] np have k: "kept h False g1 g2" by simp
    obtain trx2 where live2: "trx_objects (ctx g2) h = Some trx2"
      and l3: "logger g3 = logger_log_line (log_text trx2 op (Some obj) lw) (logger g2)"
      using lg hpos
      by (auto simp: isofuzz_log_op_def log_generic_op_def get_trx_def split: option.splits if_splits)
    have same: "dbms_id trx2 = new_id" "thread_id trx2 = thread_id trx"
      using k live2 rec1 by (auto simp: kept_def trx1_def split: option.splits)
    have "TAB \<notin> set (thread_id trx2)" using same notab by simp
    from second_field [OF this, of op "Some obj" lw] same nz
    have "split_tab (log_text trx2 op (Some obj) lw) ! 1 = show_u64 new_id" by simp
    then show ?thesis using l3 by (auto simp: written_log_line)
  qed
  have part2: "\<exists>g1 line.
            isofuzz_trx_promote h new_id g = Inr g1 \<and>
            written (logger g1) = written (logger g) @ [(current_sink (logger g), line)] \<and>
            split_tab line =
              [thread_id trx, show_u64 new_id, ''PROMOTE'', ''N/A'', ''N/A'', ''N/A'', show_u64 (lib_id trx)] \<and>
            (\<forall>cs g2 op obj lw g3.
               \<not> list_ex (promotes h) cs \<and> api_run cs g1 = Inr g2 \<and>
               isofuzz_log_op h op obj lw g2 = Inr g3 \<longrightarrow>
               (\<exists>line'. written (logger g3) = written (logger g2) @ [(current_sink (logger g2), line')] \<and>
                        split_tab line' ! 1 = show_u64 new_id))"
    using prom wr fields later by blast
  from part1 part2 show ?thesis by blast
qed

theorem effective_id_and_promote_witness:
  "\<exists>g g1 g2 g3 line line'.
     api_run [Call_begin ''T1''] initial_isofuzz = Inr g \<and>
     trx_objects (ctx g) 1 = Some \<lparr>lib_id = 1, dbms_id = 0, thread_id = ''T1''\<rparr> \<and>
     TAB \<notin> set ''T1'' \<and> (9999 :: uint64_t) \<noteq> 0 \<and>
     isofuzz_trx_promote 1 9999 g = Inr g1 \<and>
     written (logger g1) = written (logger g) @ [(current_sink (logger g), line)] \<and>
     split_tab line = [''T1'', show_u64 9999, ''PROMOTE'', ''N/A'', ''N/A'', ''N/A'', show_u64 1] \<and>
     api_run [Call_commit ''T1'' 1] g1 = Inr g2 \<and>
     isofuzz_log_op 1 READ object_t_c_42 7 g2 = Inr g3 \<and>
     written (logger g3) = written (logger g2) @ [(current_sink (logger g2), line')] \<and>
     split_tab line' ! 1 = show_u64 9999"
proof -
  obtain g where r0: "api_run [Call_begin ''T1''] initial_isofuzz = Inr g"
    by (simp add: run_defs)
  have live: "trx_objects (ctx g) 1 = Some \<lparr>lib_id = 1, dbms_id = 0, thread_id = ''T1''\<rparr>"
    using r0 by (auto simp: run_defs)
  have nt: "TAB \<notin> set (thread_id \<lparr>lib_id = 1, dbms_id = 0, thread_id = ''T1''\<rparr>)"
    by (simp add: TAB_def)
  have nz: "(9999 :: uint64_t) \<noteq> 0" by simp
  from effective_id_and_promote [OF r0 live nt nz]
  obtain g1 line where p: "isofuzz_trx_promote 1 9999 g = Inr g1"
    and w: "written (logger g1) = written (logger g) @ [(current_sink (logger g), line)]"
    and f: "split_tab line = [''T1'', show_u64 9999, ''PROMOTE'', ''N/A'', ''N/A'', ''N/A'', show_u64 1]"
    and sub: "\<And>cs g2 op obj lw g3.
               \<not> list_ex (promotes 1) cs \<and> api_run cs g1 = Inr g2 \<and>
               isofuzz_log_op 1 op obj lw g2 = Inr g3 \<Longrightarrow>
               (\<exists>line'. written (logger g3) = written (logger g2) @ [(current_sink (logger g2), line')] \<and>
                        split_tab line' ! 1 = show_u64 9999)"
    by auto
  have live1: "trx_objects (ctx g1) 1 = Some \<lparr>lib_id = 1, dbms_id = 9999, thread_id = ''T1''\<rparr>"
    using p live by (auto simp: run_defs)
  obtain g2 where r: "api_run [Call_commit ''T1'' 1] g1 = Inr g2"
    using live1 by (auto simp: run_defs)
  have live2: "trx_objects (ctx g2) 1 = Some \<lparr>lib_id = 1, dbms_id = 9999, thread_id = ''T1''\<rparr>"
    using r live1 by (auto simp: run_defs)
  obtain g3 where l: "isofuzz_log_op 1 READ object_t_c_42 7 g2 = Inr g3"
    using live2 by (auto simp: run_defs)
  have np: "\<not> list_ex (promotes 1) [Call_commit ''T1'' 1]" by simp
  from sub [of "[Call_commit ''T1'' 1]" g2 READ object_t_c_42 7 g3] np r l
  obtain line' where "written (logger g3) = written (logger g2) @ [(current_sink (logger g2), line')]"
    "split_tab line' ! 1 = show_u64 9999" by blast
  with r0 live nz p w f r l show ?thesis using nt by auto
qed

text \<open>
  Claim C6, as stated, fails for a non-null handle that is no longer in the registry: no
  entry point consults the registry, \<open>get_trx\<close> only tests for null, and the handle is
  dereferenced although \<open>isofuzz_trx_end\<close> has destroyed its record.
\<close>

theorem stale_handle_is_dereferenced:
  "(case api_run [Call_begin ''T1'', Call_end ''T1'' 1] initial_isofuzz of
      Inl e \<Rightarrow> False
    | Inr g \<Rightarrow>
        m_transactions (ctx g) 1 = None \<and>
        isofuzz_log_op 1 READ object_t_c_42 7 g = Inl Dangling_pointer \<and>
        isofuzz_trx_promote 1 9999 g = Inl Dangling_pointer \<and>
        isofuzz_trx_commit 1 g = Inl Dangling_pointer \<and>
        isofuzz_trx_end 1 g = Inl Dangling_pointer \<and>
        isofuzz_schedule_op 1 7 1 OP_READ g = Inl Dangling_pointer)"
  by (simp add: run_defs)

text \<open>
  Claim C6, amended.  Every entry point that takes a handle, called with the null handle,
  returns without any effect: the state of the library, the trace included, is unchanged.
\<close>

theorem null_handle_is_noop:
  "isofuzz_trx_promote 0 new_id g = Inr g \<and> isofuzz_trx_commit 0 g = Inr g \<and>
   isofuzz_trx_end 0 g = Inr g \<and> isofuzz_schedule_op w prio 0 intent g = Inr g \<and>
   isofuzz_log_op 0 op object last_writer_trx_id g = Inr g"
  by (simp add: isofuzz_trx_promote_def isofuzz_trx_commit_def isofuzz_trx_end_def end_trx_def
      isofuzz_schedule_op_def isofuzz_log_op_def log_generic_op_def get_trx_def)

section \<open>Claims about initialisation\<close>

lemma strtol10_None: "strtol10 str = None \<longleftrightarrow> \<not> leading_number str"
proof -
  define r where "r = dropWhile isspace str"
  have tw: "takeWhile isdigit xs = [] \<longleftrightarrow> (case xs of [] \<Rightarrow> True | d # ds \<Rightarrow> \<not> isdigit d)" for xs
    by (cases xs) auto
  have no_sign: "\<not> isdigit CHR ''-''" "\<not> isdigit CHR ''+''" by (simp_all add: isdigit_def)
  have "strtol10 str = None \<longleftrightarrow>
        takeWhile isdigit (case r of [] \<Rightarrow> [] | c # cs \<Rightarrow> if c = CHR ''-'' \<or> c = CHR ''+'' then cs else r) = []"
    unfolding strtol10_def Let_def r_def by simp
  also have "\<dots> \<longleftrightarrow> \<not> (case r of [] \<Rightarrow> False
      | c # cs \<Rightarrow> if c = CHR ''-'' \<or> c = CHR ''+'' then (case cs of [] \<Rightarrow> False | d # ds \<Rightarrow> isdigit d)
                  else isdigit c)"
    unfolding tw by (auto simp: no_sign split: list.splits)
  finally show ?thesis unfolding leading_number_def r_def .
qed

lemma stoi_invalid: "\<not> leading_number str \<Longrightarrow> stoi str = Inl Invalid_argument"
  using strtol10_None [of str] by (simp add: stoi_def)

lemma stol_invalid: "\<not> leading_number str \<Longrightarrow> stol str = Inl Invalid_argument"
  using strtol10_None [of str] by (simp add: stol_def)

lemma scheduler_init_noop: "scheduler_running s \<Longrightarrow> scheduler_init env s = Inr s"
  by (cases s) (simp add: scheduler_init_def Let_def)

lemma scheduler_init_fresh:
  assumes "\<not> scheduler_running s" and "scheduler_thread s = None"
  shows "scheduler_init env s =
           Inr (s\<lparr>scheduler_running := True,
                  EPOCH_DURATION_MS :=
                    (case ISOFUZZ_EPOCH_MS env of
                       None \<Rightarrow> EPOCH_DURATION_MS s
                     | Some str \<Rightarrow> (case stol str of
                                      Inr ms \<Rightarrow> if ms > 0 then ms else EPOCH_DURATION_MS s
                                    | Inl e \<Rightarrow> EPOCH_DURATION_MS s)),
                  rng_seed :=
                    (case RANDOM_SEED env of
                       None \<Rightarrow> 42
                     | Some str \<Rightarrow> (case stoi str of Inr v \<Rightarrow> v | Inl e \<Rightarrow> 42)),
                  scheduler_thread := Some At_loop\<rparr>)"
  using assms
  by (cases s) (simp add: scheduler_init_def init_rng_def Let_def split: option.splits sum.splits)

text \<open>
  Claim C9, as stated, fails for a value that is not an integer but begins with one:
  \<open>std::stoi\<close> and \<open>std::stol\<close> convert the leading digits and ignore the rest, so
  \<open>RANDOM_SEED=12abc\<close> seeds the generator with 12 and \<open>ISOFUZZ_EPOCH_MS=7ms\<close> sets an epoch
  of 7 milliseconds.
\<close>

theorem leading_digits_are_converted:
  "\<not> integer_text ''12abc'' \<and> \<not> integer_text ''7ms'' \<and>
   (case scheduler_init env_prefix initial_scheduler of
      Inl e \<Rightarrow> False
    | Inr s \<Rightarrow> rng_seed s = 12 \<and> EPOCH_DURATION_MS s = 7)"
  by (simp add: integer_text_def env_prefix_def scheduler_init_def init_rng_def initial_scheduler_def
      stoi_def stol_def strtol10_def isspace_def isdigit_def digit_val_def Let_def)

text \<open>
  Claim C9, amended.  When the scheduler is started (it was not running and there is no
  thread to join), nothing is reported to the caller and: if \<open>RANDOM_SEED\<close> is unset, or its
  value does not continue with a digit after optional white space and an optional sign, or
  the number read does not fit an \<open>int\<close>, the generator is seeded with 42; if
  \<open>ISOFUZZ_EPOCH_MS\<close> is unset, or has no such leading number, or the number does not fit a
  \<open>long\<close>, or it is zero or negative, the epoch duration keeps the value it has, which is 5
  milliseconds in a process that has not set it before; and a value that \<open>std::stoi\<close> or
  \<open>std::stol\<close> converts, which is every value with a leading number in range, whatever follows
  the digits, is used: as the seed, and, if positive, as the epoch duration.
\<close>

theorem env_defaults:
  assumes fresh: "\<not> scheduler_running s" and nothread: "scheduler_thread s = None"
  shows "EPOCH_DURATION_MS initial_scheduler = 5 \<and>
         (\<exists>s'. scheduler_init env s = Inr s' \<and>
           ((RANDOM_SEED env = None \<or>
             (\<exists>str. RANDOM_SEED env = Some str \<and> (\<not> leading_number str \<or> stoi str = Inl Out_of_range)))
            \<longrightarrow> rng_seed s' = 42) \<and>
           ((ISOFUZZ_EPOCH_MS env = None \<or>
             (\<exists>str. ISOFUZZ_EPOCH_MS env = Some str \<and>
                    (\<not> leading_number str \<or> stol str = Inl Out_of_range \<or>
                     (\<exists>ms. stol str = Inr ms \<and> ms \<le> 0))))
            \<longrightarrow> EPOCH_DURATION_MS s' = EPOCH_DURATION_MS s) \<and>
           (\<forall>str v. RANDOM_SEED env = Some str \<and> stoi str = Inr v \<longrightarrow> rng_seed s' = v) \<and>
           (\<forall>str ms. ISOFUZZ_EPOCH_MS env = Some str \<and> stol str = Inr ms \<and> 0 < ms
              \<longrightarrow> EPOCH_DURATION_MS s' = ms))"
  unfolding scheduler_init_fresh [OF fresh nothread]
  by (auto simp: stoi_invalid stol_invalid initial_scheduler_def)

theorem env_defaults_witness:
  "\<not> scheduler_running initial_scheduler \<and> scheduler_thread initial_scheduler = None \<and>
   RANDOM_SEED env_garbage = Some ''abc'' \<and> \<not> leading_number ''abc'' \<and>
   ISOFUZZ_EPOCH_MS env_garbage = Some ''-3'' \<and> stol ''-3'' = Inr (- 3) \<and>
   (\<exists>s'. scheduler_init env_garbage initial_scheduler = Inr s' \<and>
         rng_seed s' = 42 \<and> EPOCH_DURATION_MS s' = 5) \<and>
   (\<exists>s'. scheduler_init env_garbage (initial_scheduler\<lparr>EPOCH_DURATION_MS := 7\<rparr>) = Inr s' \<and>
         rng_seed s' = 42 \<and> EPOCH_DURATION_MS s' = 7)"
proof -
  have a: "\<not> scheduler_running initial_scheduler" "scheduler_thread initial_scheduler = None"
    "\<not> scheduler_running (initial_scheduler\<lparr>EPOCH_DURATION_MS := 7\<rparr>)"
    "scheduler_thread (initial_scheduler\<lparr>EPOCH_DURATION_MS := 7\<rparr>) = None"
    by (simp_all add: initial_scheduler_def)
  have b: "RANDOM_SEED env_garbage = Some ''abc''" "ISOFUZZ_EPOCH_MS env_garbage = Some ''-3''"
    by (simp_all add: env_garbage_def)
  have c: "\<not> leading_number ''abc''" by (simp add: leading_number_def isspace_def isdigit_def)
  have d: "stol ''-3'' = Inr (- 3)"
    by (simp add: stol_def strtol10_def isspace_def isdigit_def digit_val_def Let_def)
  from env_defaults [OF a(1,2), of env_garbage] b c d
  have e: "\<exists>s'. scheduler_init env_garbage initial_scheduler = Inr s' \<and>
         rng_seed s' = 42 \<and> EPOCH_DURATION_MS s' = 5"
    by auto
  from env_defaults [OF a(3,4), of env_garbage] b c d
  have f: "\<exists>s'. scheduler_init env_garbage (initial_scheduler\<lparr>EPOCH_DURATION_MS := 7\<rparr>) = Inr s' \<and>
         rng_seed s' = 42 \<and> EPOCH_DURATION_MS s' = 7"
    by auto
  from a(1,2) b c d e f show ?thesis by simp
qed

text \<open>
  Claim C7, as stated, fails for the log sink: \<open>logger_init\<close> has no guard.  A second
  \<open>isofuzz_init\<close> reads \<open>OUT_FILE\<close> again and reopens the destination, so the destination
  changes when the variable has changed (here from unset to \<open>trace.log\<close>), and when the
  file cannot be opened the warning is written to standard error a second time.
\<close>

theorem second_init_reopens_the_log:
  "(case isofuzz_init env0 initial_isofuzz of
      Inl e \<Rightarrow> False
    | Inr g1 \<Rightarrow>
        g_out_ptr (logger g1) = Cout \<and>
        (case isofuzz_init env_file g1 of
           Inl e \<Rightarrow> False
         | Inr g2 \<Rightarrow> g_out_ptr (logger g2) = G_file \<and> g_file (logger g2) = Some ''trace.log'')) \<and>
   (case isofuzz_init env_unwritable initial_isofuzz of
      Inl e \<Rightarrow> False
    | Inr g1 \<Rightarrow>
        length (written (logger g1)) = 1 \<and>
        (case isofuzz_init env_unwritable g1 of
           Inl e \<Rightarrow> False
         | Inr g2 \<Rightarrow> length (written (logger g2)) = 2))"
  by (simp add: isofuzz_init_def logger_init_def initial_isofuzz_def env0_def env_file_def
      env_unwritable_def scheduler_init_def init_rng_def initial_scheduler_def Let_def)

text \<open>
  Claim C7, amended.  After a successful \<open>isofuzz_init\<close>, a second one without a shutdown in
  between leaves the scheduler and the registry unchanged, whatever the environment then
  is; the log sink is opened again from \<open>OUT_FILE\<close>, so its destination is the same if the
  environment is the same (the trace written may have grown by the warning).  And in a
  fresh process with a fixed environment, init, shutdown, init, shutdown ends in the same
  registry, scheduler and log destination as init, shutdown.
\<close>

theorem second_init_and_round_trip:
  assumes first: "isofuzz_init env1 g = Inr g1"
  shows "(\<exists>g2. isofuzz_init env2 g1 = Inr g2 \<and> sched g2 = sched g1 \<and> ctx g2 = ctx g1) \<and>
         (\<exists>g2. isofuzz_init env1 g1 = Inr g2 \<and>
               g_file (logger g2) = g_file (logger g1) \<and> g_out_ptr (logger g2) = g_out_ptr (logger g1)) \<and>
         (\<exists>ga gb. api_run [Call_init env1, Call_shutdown] initial_isofuzz = Inr ga \<and>
                  api_run [Call_init env1, Call_shutdown] ga = Inr gb \<and>
                  ctx gb = ctx ga \<and> sched gb = sched ga \<and>
                  g_file (logger gb) = g_file (logger ga) \<and> g_out_ptr (logger gb) = g_out_ptr (logger ga))"
proof -
  obtain s1 where s1: "scheduler_init env1 (sched g) = Inr s1"
    and g1: "g1 = g\<lparr>logger := logger_init env1 (logger g), sched := s1\<rparr>"
    using first by (auto simp: isofuzz_init_def split: sum.splits)
  have run1: "scheduler_running s1"
    using s1 by (auto simp: scheduler_init_def init_rng_def Let_def split: if_splits option.splits sum.splits)
  have again: "scheduler_init e (sched g1) = Inr (sched g1)" for e
    using run1 g1 by (simp add: scheduler_init_noop)
  have a: "\<exists>g2. isofuzz_init env2 g1 = Inr g2 \<and> sched g2 = sched g1 \<and> ctx g2 = ctx g1"
    by (simp add: isofuzz_init_def again)
  have twice: "g_file (logger_init env1 (logger g1)) = g_file (logger g1)"
    "g_out_ptr (logger_init env1 (logger g1)) = g_out_ptr (logger g1)"
    unfolding g1 by (simp_all add: logger_init_def split: option.splits)
  have b: "\<exists>g2. isofuzz_init env1 g1 = Inr g2 \<and>
               g_file (logger g2) = g_file (logger g1) \<and> g_out_ptr (logger g2) = g_out_ptr (logger g1)"
    using twice by (simp add: isofuzz_init_def again)
  define d where "d = (case ISOFUZZ_EPOCH_MS env1 of
                       None \<Rightarrow> 5
                     | Some str \<Rightarrow> (case stol str of Inr ms \<Rightarrow> if ms > 0 then ms else 5 | Inl e \<Rightarrow> 5))"
  define r where "r = (case RANDOM_SEED env1 of
                       None \<Rightarrow> 42
                     | Some str \<Rightarrow> (case stoi str of Inr v \<Rightarrow> v | Inl e \<Rightarrow> (42::int)))"
  define stopped where "stopped = initial_scheduler\<lparr>EPOCH_DURATION_MS := d, rng_seed := r\<rparr>"
  define started where "started = stopped\<lparr>scheduler_running := True, scheduler_thread := Some At_loop\<rparr>"
  have i1: "scheduler_init env1 initial_scheduler = Inr started"
    unfolding started_def stopped_def d_def r_def
    by (subst scheduler_init_fresh) (simp_all add: initial_scheduler_def split: option.splits sum.splits)
  have dd: "(case ISOFUZZ_EPOCH_MS env1 of
               None \<Rightarrow> d
             | Some str \<Rightarrow> (case stol str of Inr ms \<Rightarrow> if ms > 0 then ms else d | Inl e \<Rightarrow> d)) = d"
    unfolding d_def by (simp split: option.splits sum.splits)
  have es: "EPOCH_DURATION_MS stopped = d" "\<not> scheduler_running stopped" "scheduler_thread stopped = None"
    by (simp_all add: stopped_def initial_scheduler_def)
  have i2: "scheduler_init env1 stopped = Inr started"
  proof -
    have "scheduler_init env1 stopped =
            Inr (stopped\<lparr>scheduler_running := True, EPOCH_DURATION_MS := d, rng_seed := r,
                         scheduler_thread := Some At_loop\<rparr>)"
      using scheduler_init_fresh [OF es(2,3), of env1] unfolding es(1) dd r_def [symmetric] .
    then show ?thesis by (simp add: started_def stopped_def)
  qed
  have sd: "scheduler_shutdown started = Inr stopped"
    unfolding started_def stopped_def
    by (simp add: scheduler_shutdown_def sched_defs)
  define ga where "ga = initial_isofuzz\<lparr>logger := logger_shutdown (logger_init env1 (logger initial_isofuzz)),
                                        sched := stopped\<rparr>"
  have ra: "api_run [Call_init env1, Call_shutdown] initial_isofuzz = Inr ga"
    using i1 sd by (simp add: isofuzz_init_def isofuzz_shutdown_def initial_isofuzz_def ga_def)
  define gb where "gb = ga\<lparr>logger := logger_shutdown (logger_init env1 (logger ga)), sched := stopped\<rparr>"
  have rb: "api_run [Call_init env1, Call_shutdown] ga = Inr gb"
    using i2 sd by (simp add: isofuzz_init_def isofuzz_shutdown_def ga_def gb_def)
  have e: "ctx gb = ctx ga" "sched gb = sched ga" "g_file (logger gb) = g_file (logger ga)"
    "g_out_ptr (logger gb) = g_out_ptr (logger ga)"
    by (simp_all add: gb_def ga_def logger_shutdown_def)
  from a b ra rb e show ?thesis by blast
qed

theorem second_init_and_round_trip_witness:
  "\<exists>g1 g2 ga gb.
     isofuzz_init env_file initial_isofuzz = Inr g1 \<and>
     isofuzz_init env0 g1 = Inr g2 \<and> sched g2 = sched g1 \<and> ctx g2 = ctx g1 \<and>
     api_run [Call_init env_file, Call_shutdown] initial_isofuzz = Inr ga \<and>
     api_run [Call_init env_file, Call_shutdown] ga = Inr gb \<and>
     ctx gb = ctx ga \<and> sched gb = sched ga \<and>
     g_file (logger gb) = g_file (logger ga) \<and> g_out_ptr (logger gb) = g_out_ptr (logger ga)"
proof -
  obtain g1 where i: "isofuzz_init env_file initial_isofuzz = Inr g1"
    by (simp add: isofuzz_init_def initial_isofuzz_def env_file_def scheduler_init_def init_rng_def
        initial_scheduler_def Let_def)
  from second_init_and_round_trip [OF i, of env0] i show ?thesis by blast
qed

section \<open>The priority queue is a binary heap\<close>

lemma parent_less: "0 < i \<Longrightarrow> (i - 1) div 2 < (i::nat)"
  by arith

lemma hole_ok_up:
  assumes ok: "hole_ok n c h v" and pos: "0 < h" and gt: "fst v < fst (c ! ((h - 1) div 2))"
  shows "hole_ok n (c[h := c ! ((h - 1) div 2)]) ((h - 1) div 2) v"
proof -
  let ?p = "(h - 1) div 2"
  let ?c = "c[h := c ! ?p]"
  from ok have hn: "h < n" and nl: "n \<le> length c"
    and edges: "\<And>i. 0 < i \<Longrightarrow> i < n \<Longrightarrow> i \<noteq> h \<Longrightarrow> parent_ok c i"
    and below: "\<And>i. 0 < i \<Longrightarrow> i < n \<Longrightarrow> (i - 1) div 2 = h \<Longrightarrow> fst v \<le> fst (c ! i)"
    and grand: "\<And>i. 0 < i \<Longrightarrow> i < n \<Longrightarrow> (i - 1) div 2 = h \<Longrightarrow> fst (c ! ?p) \<le> fst (c ! i)"
    using pos by (auto simp: hole_ok_def)
  have ph: "?p < h" using pos by arith
  have hl: "h < length c" using hn nl by simp
  have a: "parent_ok ?c i" if i: "0 < i" "i < n" "i \<noteq> ?p" for i
  proof (cases "i = h")
    case True
    then show ?thesis using hl ph by (simp add: parent_ok_def)
  next
    case False
    show ?thesis
    proof (cases "(i - 1) div 2 = h")
      case True
      then show ?thesis using grand [OF i(1,2) True] False hl by (simp add: parent_ok_def)
    next
      case nh: False
      then show ?thesis using edges [OF i(1,2) False] False by (simp add: parent_ok_def)
    qed
  qed
  have b: "fst v \<le> fst (?c ! i) \<and> (0 < ?p \<longrightarrow> fst (?c ! ((?p - 1) div 2)) \<le> fst (?c ! i))"
    if i: "0 < i" "i < n" "(i - 1) div 2 = ?p" for i
  proof -
    have pi: "fst (c ! ?p) \<le> fst (?c ! i)"
    proof (cases "i = h")
      case True
      then show ?thesis using hl by simp
    next
      case False
      with edges [OF i(1,2) False] i(3) show ?thesis by (simp add: parent_ok_def)
    qed
    have pp: "fst (c ! ((?p - 1) div 2)) \<le> fst (c ! ?p)" if "0 < ?p"
    proof -
      have "?p < n" using ph hn by simp
      moreover have "?p \<noteq> h" using ph by simp
      ultimately show ?thesis using edges [of ?p] that by (simp add: parent_ok_def)
    qed
    have "(?p - 1) div 2 \<noteq> h" using ph by arith
    then have "?c ! ((?p - 1) div 2) = c ! ((?p - 1) div 2)" by simp
    with pi pp gt show ?thesis by auto
  qed
  have pn: "?p < n" using ph hn by simp
  show ?thesis
    unfolding hole_ok_def
  proof (intro conjI allI impI)
    show "?p < n" by (rule pn)
    show "n \<le> length ?c" using nl by simp
  next
    fix i assume "0 < i \<and> i < n \<and> i \<noteq> ?p"
    then show "parent_ok ?c i" using a by blast
  next
    fix i assume "0 < i \<and> i < n \<and> (i - 1) div 2 = ?p"
    then show "fst v \<le> fst (?c ! i)" using b by blast
  next
    fix i assume "0 < i \<and> i < n \<and> (i - 1) div 2 = ?p" and "0 < ?p"
    then show "fst (?c ! ((?p - 1) div 2)) \<le> fst (?c ! i)" using b by blast
  qed
qed

lemma hole_ok_fill:
  assumes ok: "hole_ok n c h v" and stop: "\<not> (0 < h \<and> fst v < fst (c ! ((h - 1) div 2)))"
  shows "is_heap n (c[h := v])"
  unfolding is_heap_def
proof (intro allI impI)
  fix i assume i: "0 < i \<and> i < n"
  from ok have hn: "h < n" and nl: "n \<le> length c"
    and edges: "\<And>i. 0 < i \<Longrightarrow> i < n \<Longrightarrow> i \<noteq> h \<Longrightarrow> parent_ok c i"
    and below: "\<And>i. 0 < i \<Longrightarrow> i < n \<Longrightarrow> (i - 1) div 2 = h \<Longrightarrow> fst v \<le> fst (c ! i)"
    by (auto simp: hole_ok_def)
  have hl: "h < length c" using hn nl by simp
  show "parent_ok (c[h := v]) i"
  proof (cases "i = h")
    case True
    then have "(i - 1) div 2 \<noteq> h" using i by arith
    then show ?thesis using True stop i hl by (auto simp: parent_ok_def)
  next
    case False
    show ?thesis
    proof (cases "(i - 1) div 2 = h")
      case True
      then show ?thesis using below [of i] i False hl by (simp add: parent_ok_def)
    next
      case nh: False
      then show ?thesis using edges [of i] i False by (simp add: parent_ok_def)
    qed
  qed
qed

lemma push_heap_loop_step:
  "t < h \<and> CompareTrxPriority (c ! ((h - 1) div 2)) v \<Longrightarrow>
   push_heap_loop c h t v = push_heap_loop (c[h := c ! ((h - 1) div 2)]) ((h - 1) div 2) t v"
  by (subst push_heap_loop.simps) (simp only: simp_thms if_True if_False)

lemma push_heap_loop_stop:
  "\<not> (t < h \<and> CompareTrxPriority (c ! ((h - 1) div 2)) v) \<Longrightarrow> push_heap_loop c h t v = c[h := v]"
  by (subst push_heap_loop.simps) (simp only: simp_thms if_True if_False)

lemma push_heap_loop_heap:
  "hole_ok n c h v \<Longrightarrow> tp = 0 \<Longrightarrow> is_heap n (push_heap_loop c h tp v)"
proof (induction c h tp v rule: push_heap_loop.induct)
  case (1 c holeIndex topIndex v)
  show ?case
  proof (cases "holeIndex > topIndex \<and> CompareTrxPriority (c ! ((holeIndex - 1) div 2)) v")
    case True
    then have up: "hole_ok n (c[holeIndex := c ! ((holeIndex - 1) div 2)]) ((holeIndex - 1) div 2) v"
      using hole_ok_up [OF "1.prems"(1)] "1.prems"(2) by (simp add: CompareTrxPriority_def)
    from "1.IH" [OF True up "1.prems"(2)] show ?thesis
      unfolding push_heap_loop_step [OF True] .
  next
    case False
    then have "\<not> (0 < holeIndex \<and> fst v < fst (c ! ((holeIndex - 1) div 2)))"
      using "1.prems"(2) by (simp add: CompareTrxPriority_def)
    from hole_ok_fill [OF "1.prems"(1) this] show ?thesis
      unfolding push_heap_loop_stop [OF False] .
  qed
qed

lemma push_heap_loop_length: "length (push_heap_loop c h tp v) = length c"
proof (induction c h tp v rule: push_heap_loop.induct)
  case (1 c holeIndex topIndex v)
  show ?case
  proof (cases "holeIndex > topIndex \<and> CompareTrxPriority (c ! ((holeIndex - 1) div 2)) v")
    case True
    from "1.IH" [OF True] show ?thesis unfolding push_heap_loop_step [OF True] by simp
  next
    case False
    show ?thesis unfolding push_heap_loop_stop [OF False] by simp
  qed
qed

lemma push_heap_loop_above: "h < j \<Longrightarrow> push_heap_loop c h tp v ! j = c ! j"
proof (induction c h tp v rule: push_heap_loop.induct)
  case (1 c holeIndex topIndex v)
  show ?case
  proof (cases "holeIndex > topIndex \<and> CompareTrxPriority (c ! ((holeIndex - 1) div 2)) v")
    case True
    then have "(holeIndex - 1) div 2 < j" using "1.prems" by arith
    from "1.IH" [OF True this] "1.prems" show ?thesis
      unfolding push_heap_loop_step [OF True] by simp
  next
    case False
    show ?thesis unfolding push_heap_loop_stop [OF False] using "1.prems" by simp
  qed
qed

lemma mset_update_twice:
  assumes "h < length c" "p < length c" "p \<noteq> h"
  shows "mset (c[h := c ! p, p := v]) = mset (c[h := v])"
proof -
  let ?ls = "c[h := v]"
  have "c[h := c ! p, p := v] = ?ls[p := ?ls ! h, h := ?ls ! p]"
    using assms by (auto simp: list_eq_iff_nth_eq nth_list_update)
  also have "mset \<dots> = mset ?ls"
    using assms by (intro mset_swap) simp_all
  finally show ?thesis .
qed

lemma push_heap_loop_mset:
  "h < length c \<Longrightarrow> mset (push_heap_loop c h tp v) = mset (c[h := v])"
proof (induction c h tp v rule: push_heap_loop.induct)
  case (1 c holeIndex topIndex v)
  show ?case
  proof (cases "holeIndex > topIndex \<and> CompareTrxPriority (c ! ((holeIndex - 1) div 2)) v")
    case True
    let ?p = "(holeIndex - 1) div 2"
    have p: "?p < holeIndex" using True by arith
    then have pl: "?p < length (c[holeIndex := c ! ?p])" using "1.prems" by simp
    from "1.IH" [OF True pl]
    have "mset (push_heap_loop c holeIndex topIndex v) = mset (c[holeIndex := c ! ?p, ?p := v])"
      unfolding push_heap_loop_step [OF True] .
    also have "\<dots> = mset (c[holeIndex := v])"
      using "1.prems" p by (intro mset_update_twice) simp_all
    finally show ?thesis .
  next
    case False
    show ?thesis unfolding push_heap_loop_stop [OF False] by simp
  qed
qed


lemma child_parent:
  "0 < i \<Longrightarrow> (i - 1) div 2 = h \<Longrightarrow> i = 2 * (h + 1) \<or> i = 2 * (h + 1) - 1"
  for i h :: nat
  by arith

lemma heap_child_up:
  assumes hp: "is_heap n c" and nl: "n \<le> length c" and kn: "k < n" and hk: "h < k"
    and pk: "(k - 1) div 2 = h"
    and le: "\<And>i. 0 < i \<Longrightarrow> i < n \<Longrightarrow> (i - 1) div 2 = h \<Longrightarrow> fst (c ! k) \<le> fst (c ! i)"
  shows "is_heap n (c[h := c ! k])"
  unfolding is_heap_def
proof (intro allI impI)
  fix i assume i: "0 < i \<and> i < n"
  have hl: "h < length c" using hk kn nl by simp
  have edge: "\<And>j. 0 < j \<Longrightarrow> j < n \<Longrightarrow> fst (c ! ((j - 1) div 2)) \<le> fst (c ! j)"
    using hp by (simp add: is_heap_def parent_ok_def)
  show "parent_ok (c[h := c ! k]) i"
  proof (cases "i = h")
    case True
    then have ne: "(i - 1) div 2 \<noteq> h" using i by arith
    have "fst (c ! ((h - 1) div 2)) \<le> fst (c ! h)" using edge [of h] i True by simp
    moreover have "fst (c ! h) \<le> fst (c ! k)" using edge [of k] kn hk pk by simp
    ultimately show ?thesis using True ne hl by (simp add: parent_ok_def)
  next
    case False
    show ?thesis
    proof (cases "(i - 1) div 2 = h")
      case True
      then show ?thesis using le [of i] i False hl by (simp add: parent_ok_def)
    next
      case nh: False
      then show ?thesis using edge [of i] i False by (simp add: parent_ok_def)
    qed
  qed
qed

lemma adjust_heap_down_step:
  "h < (len - 1) div 2 \<Longrightarrow>
   adjust_heap_down c len h =
     adjust_heap_down
       (c[h := c ! (if CompareTrxPriority (c ! (2 * (h + 1))) (c ! (2 * (h + 1) - 1))
                    then 2 * (h + 1) - 1 else 2 * (h + 1))]) len
       (if CompareTrxPriority (c ! (2 * (h + 1))) (c ! (2 * (h + 1) - 1))
        then 2 * (h + 1) - 1 else 2 * (h + 1))"
  by (subst adjust_heap_down.simps) (simp only: simp_thms if_True Let_def)

lemma adjust_heap_down_stop:
  "\<not> h < (len - 1) div 2 \<Longrightarrow> adjust_heap_down c len h = (c, h)"
  by (subst adjust_heap_down.simps) (simp only: simp_thms if_False)

lemma adjust_heap_down_inv:
  "is_heap len c \<Longrightarrow> len \<le> length c \<Longrightarrow> h < len \<Longrightarrow>
   descended len c h (fst (adjust_heap_down c len h)) (snd (adjust_heap_down c len h))"
proof (induction c len h rule: adjust_heap_down.induct)
  case (1 c len holeIndex)
  show ?case
  proof (cases "holeIndex < (len - 1) div 2")
    case False
    then show ?thesis
      using "1.prems" unfolding adjust_heap_down_stop [OF False] descended_def by simp
  next
    case True
    let ?r = "2 * (holeIndex + 1)"
    let ?k = "if CompareTrxPriority (c ! ?r) (c ! (?r - 1)) then ?r - 1 else ?r"
    let ?c = "c[holeIndex := c ! ?k]"
    have rn: "?r < len" using True by arith
    have kn: "?k < len" using rn by simp
    have hk: "holeIndex < ?k" by simp
    have pk: "(?k - 1) div 2 = holeIndex" by simp
    have le: "fst (c ! ?k) \<le> fst (c ! i)" if "0 < i" "i < len" "(i - 1) div 2 = holeIndex" for i
    proof -
      from child_parent [OF that(1,3)] show ?thesis
        by (auto simp: CompareTrxPriority_def)
    qed
    have hp: "is_heap len ?c"
      using "1.prems"(1,2) kn hk pk le by (rule heap_child_up)
    have ll: "len \<le> length ?c" using "1.prems"(2) by simp
    have ih: "descended len ?c ?k (fst (adjust_heap_down ?c len ?k)) (snd (adjust_heap_down ?c len ?k))"
      using "1.IH" [OF True refl refl hp ll kn] .
    have kl: "?k < length c" using kn "1.prems"(2) by simp
    have hl: "holeIndex < length c" using "1.prems"(2,3) by simp
    have ms: "mset (?c[?k := x]) = mset (c[holeIndex := x])" for x
      using hl kl hk by (intro mset_update_twice) simp_all
    have ab: "?c ! j = c ! j" if "len \<le> j" for j
      using that "1.prems"(3) by simp
    show ?thesis
      unfolding adjust_heap_down_step [OF True]
      using ih ms ab unfolding descended_def by simp
  qed
qed


lemma leaf_hole_ok:
  assumes hp: "is_heap n c" and nl: "n \<le> length c" and hn: "h < n" and leaf: "n \<le> 2 * h + 1"
  shows "hole_ok n c h v"
  unfolding hole_ok_def
proof (intro conjI allI impI)
  show "h < n" by (rule hn)
  show "n \<le> length c" by (rule nl)
next
  fix i assume "0 < i \<and> i < n \<and> i \<noteq> h"
  then show "parent_ok c i" using hp by (simp add: is_heap_def)
next
  fix i assume "0 < i \<and> i < n \<and> (i - 1) div 2 = h"
  then have False using leaf by arith
  then show "fst v \<le> fst (c ! i)" ..
next
  fix i assume "0 < i \<and> i < n \<and> (i - 1) div 2 = h"
  then have False using leaf by arith
  then show "fst (c ! ((h - 1) div 2)) \<le> fst (c ! i)" ..
qed

lemma adjust_heap_props:
  assumes hp: "is_heap len c" and nl: "len \<le> length c" and pos: "0 < len"
  shows "is_heap len (adjust_heap c 0 len v) \<and>
         length (adjust_heap c 0 len v) = length c \<and>
         mset (adjust_heap c 0 len v) = mset (c[0 := v]) \<and>
         (\<forall>j. len \<le> j \<longrightarrow> adjust_heap c 0 len v ! j = c ! j)"
proof -
  obtain c1 h1 where d: "adjust_heap_down c len 0 = (c1, h1)" by (cases "adjust_heap_down c len 0")
  from adjust_heap_down_inv [OF hp nl pos] d
  have dd: "descended len c 0 c1 h1" by simp
  have hp1: "is_heap len c1" and h1n: "h1 < len" and low: "(len - 1) div 2 \<le> h1"
    and l1: "length c1 = length c"
    using dd unfolding descended_def by blast+
  have ms1: "mset (c1[h1 := x]) = mset (c[0 := x])" for x
    using dd unfolding descended_def by blast
  have ab1: "c1 ! j = c ! j" if "len \<le> j" for j
    using dd that unfolding descended_def by blast
  have nl1: "len \<le> length c1" using nl l1 by simp
  show ?thesis
  proof (cases "len mod 2 = 0 \<and> 2 \<le> len \<and> h1 = (len - 2) div 2")
    case True
    let ?k = "2 * (h1 + 1) - 1"
    let ?c = "c1[h1 := c1 ! ?k]"
    have k: "?k = len - 1" using True by arith
    have kn: "?k < len" using k pos by simp
    have hk: "h1 < ?k" by simp
    have pk: "(?k - 1) div 2 = h1" by simp
    have only: "i = ?k" if "0 < i" "i < len" "(i - 1) div 2 = h1" for i
      using child_parent [OF that(1,3)] that(2) k by arith
    have le: "fst (c1 ! ?k) \<le> fst (c1 ! i)" if "0 < i" "i < len" "(i - 1) div 2 = h1" for i
      using only [OF that] by simp
    have hp2: "is_heap len ?c" using hp1 nl1 kn hk pk le by (rule heap_child_up)
    have nl2: "len \<le> length ?c" using nl1 by simp
    have leaf: "len \<le> 2 * ?k + 1" using k True by arith
    have ok: "hole_ok len ?c ?k v" using hp2 nl2 kn leaf by (rule leaf_hole_ok)
    have r: "adjust_heap c 0 len v = push_heap_loop ?c ?k 0 v"
      using True d by (simp add: adjust_heap_def)
    have kl: "?k < length c1" using kn nl1 by simp
    have hl: "h1 < length c1" using h1n nl1 by simp
    have "mset (push_heap_loop ?c ?k 0 v) = mset (?c[?k := v])"
      using kl by (intro push_heap_loop_mset) simp
    also have "\<dots> = mset (c1[h1 := v])"
      using hl kl hk by (intro mset_update_twice) simp_all
    also have "\<dots> = mset (c[0 := v])" by (rule ms1)
    finally have ms: "mset (push_heap_loop ?c ?k 0 v) = mset (c[0 := v])" .
    have ab: "push_heap_loop ?c ?k 0 v ! j = c ! j" if "len \<le> j" for j
    proof -
      have "?k < j" using that kn by simp
      then have "push_heap_loop ?c ?k 0 v ! j = ?c ! j" by (rule push_heap_loop_above)
      also have "\<dots> = c1 ! j" using that h1n by simp
      also have "\<dots> = c ! j" using that by (rule ab1)
      finally show ?thesis .
    qed
    show ?thesis
      unfolding r using push_heap_loop_heap [OF ok refl] ms ab l1
      by (simp add: push_heap_loop_length)
  next
    case False
    have leaf: "len \<le> 2 * h1 + 1" using False low h1n by arith
    have ok: "hole_ok len c1 h1 v" using hp1 nl1 h1n leaf by (rule leaf_hole_ok)
    have r: "adjust_heap c 0 len v = push_heap_loop c1 h1 0 v"
      using False d by (auto simp: adjust_heap_def)
    have hl: "h1 < length c1" using h1n nl1 by simp
    have ms: "mset (push_heap_loop c1 h1 0 v) = mset (c[0 := v])"
      using push_heap_loop_mset [OF hl, of 0 v] ms1 by simp
    have ab: "push_heap_loop c1 h1 0 v ! j = c ! j" if "len \<le> j" for j
    proof -
      have "h1 < j" using that h1n by simp
      then have "push_heap_loop c1 h1 0 v ! j = c1 ! j" by (rule push_heap_loop_above)
      also have "\<dots> = c ! j" using that by (rule ab1)
      finally show ?thesis .
    qed
    show ?thesis
      unfolding r using push_heap_loop_heap [OF ok refl] ms ab l1
      by (simp add: push_heap_loop_length)
  qed
qed

lemma is_heap_shorter: "is_heap n c \<Longrightarrow> m \<le> n \<Longrightarrow> is_heap m c"
  by (simp add: is_heap_def)

lemma is_heap_cong:
  assumes "is_heap n c" and "\<And>i. i < n \<Longrightarrow> d ! i = c ! i"
  shows "is_heap n d"
  unfolding is_heap_def parent_ok_def
proof (intro allI impI)
  fix i assume i: "0 < i \<and> i < n"
  then have "(i - 1) div 2 < n" by arith
  then show "fst (d ! ((i - 1) div 2)) \<le> fst (d ! i)"
    using assms i by (simp add: is_heap_def parent_ok_def)
qed

lemma mset_butlast_last: "xs \<noteq> [] \<Longrightarrow> mset xs = add_mset (last xs) (mset (butlast xs))"
  by (cases xs rule: rev_exhaust) simp_all

lemma pq_pop_props:
  assumes hp: "is_heap (length c) c" and ne: "c \<noteq> []"
  shows "is_heap (length (pq_pop c)) (pq_pop c) \<and> length (pq_pop c) = length c - 1 \<and>
         mset c = add_mset (pq_top c) (mset (pq_pop c))"
proof (cases "length c > 1")
  case False
  then obtain x where "c = [x]" using ne by (cases c) auto
  then show ?thesis by (simp add: pq_pop_def pop_heap_def pq_top_def is_heap_def)
next
  case True
  let ?n = "length c - 1"
  let ?c = "c[?n := c ! 0]"
  let ?v = "c ! ?n"
  let ?r = "adjust_heap ?c 0 ?n ?v"
  have r: "pop_heap c = ?r" using True by (simp add: pop_heap_def)
  have hp0: "is_heap ?n ?c"
    by (rule is_heap_cong [OF is_heap_shorter [OF hp]]) simp_all
  have nl: "?n \<le> length ?c" by simp
  have pos: "0 < ?n" using True by simp
  from adjust_heap_props [OF hp0 nl pos, of ?v]
  have hr: "is_heap ?n ?r" and lr: "length ?r = length c" and mr: "mset ?r = mset (?c[0 := ?v])"
    and ar: "?r ! ?n = ?c ! ?n"
    by simp_all
  have top: "?r ! ?n = c ! 0" using ar True by simp
  have "mset (?c[0 := ?v]) = mset c"
    using True by (intro mset_swap) auto
  with mr have mc: "mset ?r = mset c" by simp
  have rne: "?r \<noteq> []" using lr ne by auto
  have lastr: "last ?r = c ! 0" using top lr rne by (simp add: last_conv_nth)
  have "mset ?r = add_mset (last ?r) (mset (butlast ?r))"
    using rne by (rule mset_butlast_last)
  then have m: "mset c = add_mset (pq_top c) (mset (pq_pop c))"
    using mc lastr r by (simp add: pq_pop_def pq_top_def)
  have l: "length (pq_pop c) = ?n" using lr r by (simp add: pq_pop_def)
  have "butlast ?r ! i = ?r ! i" if "i < ?n" for i
    using that lr by (intro nth_butlast) simp
  then have "is_heap ?n (butlast ?r)"
    by (rule is_heap_cong [OF hr])
  then have "is_heap (length (pq_pop c)) (pq_pop c)" using l r by (simp add: pq_pop_def)
  with l m show ?thesis by simp
qed

lemma pq_push_props:
  assumes hp: "is_heap (length c) c"
  shows "is_heap (length (pq_push x c)) (pq_push x c) \<and> mset (pq_push x c) = add_mset x (mset c)"
proof -
  let ?n = "length c"
  let ?c = "c @ [x]"
  have r: "pq_push x c = push_heap_loop ?c ?n 0 x" by (simp add: pq_push_def push_heap_def)
  have hp1: "is_heap ?n ?c"
    by (rule is_heap_cong [OF hp]) (simp add: nth_append)
  have ok: "hole_ok (Suc ?n) ?c ?n x"
    unfolding hole_ok_def
  proof (intro conjI allI impI)
    show "?n < Suc ?n" by simp
    show "Suc ?n \<le> length ?c" by simp
  next
    fix i assume "0 < i \<and> i < Suc ?n \<and> i \<noteq> ?n"
    then show "parent_ok ?c i" using hp1 by (simp add: is_heap_def)
  next
    fix i assume "0 < i \<and> i < Suc ?n \<and> (i - 1) div 2 = ?n"
    then have False by arith
    then show "fst x \<le> fst (?c ! i)" ..
  next
    fix i assume "0 < i \<and> i < Suc ?n \<and> (i - 1) div 2 = ?n"
    then have False by arith
    then show "fst (?c ! ((?n - 1) div 2)) \<le> fst (?c ! i)" ..
  qed
  have "mset (push_heap_loop ?c ?n 0 x) = mset (?c[?n := x])"
    by (intro push_heap_loop_mset) simp
  then have ms: "mset (pq_push x c) = add_mset x (mset c)" using r by simp
  from push_heap_loop_heap [OF ok refl] r ms show ?thesis
    by (simp add: push_heap_loop_length)
qed

lemma root_is_least: "is_heap n c \<Longrightarrow> i < n \<Longrightarrow> fst (c ! 0) \<le> fst (c ! i)"
proof (induction i rule: less_induct)
  case (less i)
  show ?case
  proof (cases "i = 0")
    case True
    then show ?thesis by simp
  next
    case False
    then have p: "(i - 1) div 2 < i" by arith
    then have "fst (c ! 0) \<le> fst (c ! ((i - 1) div 2))" using less by simp
    moreover have "fst (c ! ((i - 1) div 2)) \<le> fst (c ! i)"
      using less.prems False by (simp add: is_heap_def parent_ok_def)
    ultimately show ?thesis by simp
  qed
qed

lemma heap_top_least:
  assumes "is_heap (length q) q" and "x \<in> set q"
  shows "fst (pq_top q) \<le> fst x"
proof -
  from assms(2) obtain i where "i < length q" "q ! i = x" by (auto simp: in_set_conv_nth)
  with root_is_least [OF assms(1), of i] show ?thesis by (simp add: pq_top_def)
qed

lemma drain_n_sorted:
  "is_heap (length q) q \<Longrightarrow> length q \<le> k \<Longrightarrow>
   mset (drain_n k q) = mset q \<and> sorted (map fst (drain_n k q))"
proof (induction k arbitrary: q)
  case 0
  then show ?case by simp
next
  case (Suc k)
  show ?case
  proof (cases "q = []")
    case True
    then show ?thesis by simp
  next
    case False
    from pq_pop_props [OF Suc.prems(1) False]
    have hp: "is_heap (length (pq_pop q)) (pq_pop q)" and l: "length (pq_pop q) = length q - 1"
      and m: "mset q = add_mset (pq_top q) (mset (pq_pop q))" by blast+
    have "length (pq_pop q) \<le> k" using l Suc.prems(2) by simp
    from Suc.IH [OF hp this]
    have ih: "mset (drain_n k (pq_pop q)) = mset (pq_pop q)" "sorted (map fst (drain_n k (pq_pop q)))"
      by simp_all
    have "fst (pq_top q) \<le> fst x" if "x \<in> set (drain_n k (pq_pop q))" for x
    proof -
      from that have "x \<in># mset (pq_pop q)" using ih(1) by (metis set_mset_mset)
      then have "x \<in># mset q" using m by simp
      then have "x \<in> set q" by simp
      with Suc.prems(1) show ?thesis by (rule heap_top_least)
    qed
    then show ?thesis using False ih m by auto
  qed
qed

lemma foldl_pq_push:
  "is_heap (length q) q \<Longrightarrow>
   is_heap (length (foldl (\<lambda>q x. pq_push x q) q xs)) (foldl (\<lambda>q x. pq_push x q) q xs) \<and>
   mset (foldl (\<lambda>q x. pq_push x q) q xs) = mset q + mset xs"
proof (induction xs arbitrary: q)
  case Nil
  then show ?case by simp
next
  case (Cons x xs)
  from pq_push_props [OF Cons.prems, of x]
  have hp: "is_heap (length (pq_push x q)) (pq_push x q)" and m: "mset (pq_push x q) = add_mset x (mset q)"
    by blast+
  from Cons.IH [OF hp] m show ?case by simp
qed

lemma is_heap_empty: "is_heap (length []) []"
  by (simp add: is_heap_def)

lemma draining_iteration_pops_top:
  assumes "scheduler_queue s \<noteq> []"
  shows "(case sched_drain s of
            Inl e \<Rightarrow> map_find (snd (pq_top (scheduler_queue s))) (trx_wait_map s) = None
          | Inr s' \<Rightarrow>
              scheduler_queue s' = pq_pop (scheduler_queue s) \<and>
              (\<exists>ptr. map_find (snd (pq_top (scheduler_queue s))) (trx_wait_map s) = Some ptr \<and>
                     scheduler_thread s' = Some (At_signal ptr)))"
  using assms by (simp add: sched_drain_def set_thread_def Let_def split: option.splits)

text \<open>
  Claim C2, as stated, fails in its second half: the comparator looks at the priority only
  and the binary heap is not stable.  Four requests of equal priority 5, inserted in the
  order 1, 2, 3, 4, leave the queue in the order 1, 3, 2, 4.
\<close>

theorem equal_priorities_leave_in_heap_order:
  "drain_order (scheduler_queue (sched_move [(5, 1), (5, 2), (5, 3), (5, 4)] initial_scheduler))
     = [(5, 1), (5, 3), (5, 2), (5, 4)]"
  by (simp add: drain_order_def sched_defs)

lemma spec_example_order:
  "map fst (drain_order (scheduler_queue (sched_move [(50, 1), (10, 2), (90, 3), (30, 4)] initial_scheduler)))
     = [10, 30, 50, 90]"
  by (simp add: drain_order_def sched_defs)

section \<open>Accesses to a waiter outside its mutex\<close>

text \<open>
  Three executions of logger.cpp that the steps above allow.  The scheduler thread sets the
  flag under the waiter's mutex and calls \<open>notify_one\<close> after releasing it: a worker that had
  not yet tested the flag sees it, returns and deletes the waiter before the notification.
  The shutdown path writes the flag without the mutex and then calls \<open>notify_all\<close>: the same
  can happen there; and a worker that has tested the flag and is about to block misses both
  the write and the notification, and stays blocked with its flag set after the shutdown has
  returned.
\<close>

lemma notify_after_delete:
  "exec [Init env0, Enter 1 1 7, Worker 1, Worker 1, Sched, Sched, Sched, Sched, Sched, Sched,
         Worker 1, Worker 1, Sched] initial_scheduler = Inl Dangling_pointer"
  by (simp add: sched_defs)

lemma shutdown_notifies_a_deleted_waiter:
  "exec [Init env0, Enter 1 1 7, Worker 1, Worker 1, Shutdown_enter, Sched, Shutdown_finish,
         Shutdown_finish, Worker 1, Worker 1, Shutdown_finish] initial_scheduler = Inl Dangling_pointer"
  by (simp add: sched_defs)

lemma shutdown_wakeup_is_lost:
  "(case exec [Init env0, Enter 1 1 7, Worker 1, Worker 1, Worker 1, Shutdown_enter, Sched,
               Shutdown_finish, Shutdown_finish, Shutdown_finish, Worker 1, Shutdown_finish]
          initial_scheduler of
      Inl e \<Rightarrow> False
    | Inr s \<Rightarrow>
        \<not> joining s \<and> scheduler_thread s = None \<and> trx_wait_map s = [] \<and>
        map_option pc (workers s 1) = Some Blocked \<and>
        wait_objects s 1 = Some \<lparr>mtx = False, cv = True, is_ready = True\<rparr> \<and>
        exec [Sched, Worker 1, Shutdown_enter, Shutdown_finish, Worker 1] s = Inr s)"
  by (simp add: sched_defs)

section \<open>Claims refuted by an interleaving\<close>

text \<open>
  Claim C1 says that the scheduler thread never pops an identifier that has no entry in the
  waiter map, whatever the interleaving, so that the assertion in the DRAINING branch cannot
  fail.  The execution below refutes it on the scheduler of logger.cpp: a worker pushes its
  request to the pending queue and is then delayed before it inserts its waiter; meanwhile
  the scheduler thread swaps the pending queue, moves the request into the priority queue and
  pops it.  The lookup in the map fails and the assertion is violated.
\<close>

theorem pop_before_insert_fails_assertion:
  "exec [Init env0, Enter 1 1 7, Worker 1, Sched, Sched, Sched, Sched, Sched] initial_scheduler
     = Inl Assertion_failed"
  by (simp add: sched_defs)

text \<open>
  Claim C4 says that after \<open>scheduler_shutdown\<close> has returned no worker remains blocked in
  \<open>scheduler_request\<close> and parked workers return normally.  Two executions refute it.  In
  logger.cpp, a worker that has pushed its request but not yet inserted its waiter when the
  shutdown runs is not in the map that the shutdown releases; it then inserts its waiter
  and blocks in \<open>cv.wait\<close>, with nobody left to wake it: the scheduler is stopped, the
  worker is blocked with its flag false, and further steps of any thread change nothing.  In scheduler.cpp, the
  shutdown destroys the waiters the map owns while a parked worker still waits on its own:
  the worker's next look at its waiter is a use after free.
\<close>

theorem shutdown_misses_a_worker:
  "(case exec [Init env0, Enter 1 1 7, Worker 1, Shutdown_enter, Sched, Shutdown_finish, Shutdown_finish,
               Worker 1, Worker 1, Worker 1] initial_scheduler of
      Inl e \<Rightarrow> False
    | Inr s \<Rightarrow>
        \<not> scheduler_running s \<and> scheduler_thread s = None \<and> \<not> joining s \<and>
        trx_wait_map s = [(1, 1)] \<and>
        map_option pc (workers s 1) = Some Blocked \<and>
        map_option is_ready (wait_objects s 1) = Some False \<and>
        exec [Sched, Worker 1, Shutdown_enter, Shutdown_finish, Worker 1] s = Inr s) \<and>
   exec_owning [Init env0, Enter 1 1 7, Worker 1, Worker 1, Worker 1, Worker 1, Shutdown_enter, Sched,
                Shutdown_finish, Shutdown_finish, Shutdown_finish, Shutdown_finish, Worker 1]
     initial_scheduler
     = Inl Dangling_pointer"
  by (simp add: sched_defs)

text \<open>
  Claim C5 says that the waiter is destroyed by the worker that observed the flag, never by
  the scheduler thread.  In scheduler.cpp the scheduler thread moves the \<open>unique_ptr\<close> out of
  the map into a local variable, signals the waiter, and destroys it where the block ends.
  In the execution below the worker is blocked in \<open>cv.wait\<close> and has not looked at the flag
  again when the scheduler thread destroys the waiter at address 1; the worker's next step
  reads the destroyed object.
\<close>

theorem scheduler_thread_destroys_waiter:
  "(case exec_owning [Init env0, Enter 1 1 7, Worker 1, Worker 1, Worker 1, Worker 1,
                      Sched, Sched, Sched, Sched, Sched, Sched, Sched, Sched] initial_scheduler of
      Inl e \<Rightarrow> False
    | Inr s \<Rightarrow>
        map_option pc (workers s 1) = Some Blocked \<and>
        map_option wait_info_ptr (workers s 1) = Some 1 \<and>
        wait_objects s 1 = None \<and> scheduler_thread s = Some At_loop \<and>
        step_owning (Worker 1) s = Inl Dangling_pointer)"
  by (simp add: sched_defs)

section \<open>Epochs are popped one after the other\<close>

lemma batches_append: "batches (es @ fs) = batches es @ batches fs"
  by (induction es rule: batches.induct) simp_all

lemma pops_append: "pops (es @ fs) = pops es @ pops fs"
  by (induction es rule: pops.induct) simp_all

lemma drain_order_step:
  assumes "is_heap (length q) q" and "q \<noteq> []"
  shows "drain_order q = pq_top q # drain_order (pq_pop q)"
proof -
  from pq_pop_props [OF assms] have l: "length (pq_pop q) = length q - 1" by blast
  obtain m where m: "length q = Suc m" using assms(2) by (cases q) auto
  show ?thesis using assms(2) l m by (simp add: drain_order_def)
qed

lemma drain_order_empty: "drain_order [] = []"
  by (simp add: drain_order_def)

lemma queue_inv_not_move:
  assumes "\<And>b. t \<noteq> Some (At_move b)"
  shows "queue_inv t q e B P \<longleftrightarrow>
           is_heap (length q) q \<and> (e = COLLECTING \<longrightarrow> q = []) \<and> (t = Some At_collect \<longrightarrow> q = []) \<and>
           popped_so_far q B P"
  using assms unfolding queue_inv_def
  by (auto split: option.splits sched_pc.splits)

lemma queue_inv_move:
  "queue_inv (Some (At_move b)) q e B P \<longleftrightarrow>
     q = [] \<and> B \<noteq> [] \<and> last B = b \<and> P = concat (map batch_order (butlast B))"
  unfolding queue_inv_def by (auto simp: is_heap_def)

text \<open>The thread moves on, the queue and the epoch stay.\<close>

lemma queue_inv_rethread:
  assumes inv: "queue_inv t q e B P"
    and old: "\<And>b. t \<noteq> Some (At_move b)"
    and new: "\<And>b. t' \<noteq> Some (At_move b)" "t' = Some At_collect \<longrightarrow> q = []"
  shows "queue_inv t' q e B P"
  using inv new(2) unfolding queue_inv_not_move [OF old] queue_inv_not_move [OF new(1)] by simp

lemma popped_all:
  assumes "popped_so_far [] B P"
  shows "P = concat (map batch_order B)"
proof (cases "B = []")
  case True
  with assms show ?thesis by (simp add: popped_so_far_def)
next
  case False
  with assms obtain k where P: "P = concat (map batch_order (butlast B)) @ take k (batch_order (last B))"
    and d: "drop k (batch_order (last B)) = []"
    by (auto simp: popped_so_far_def drain_order_empty)
  from d have "take k (batch_order (last B)) = batch_order (last B)" by simp
  with P have "P = concat (map batch_order (butlast B @ [last B]))" by simp
  with False show ?thesis by simp
qed

lemma popped_one_more:
  assumes inv: "popped_so_far q B P" and hp: "is_heap (length q) q" and ne: "q \<noteq> []"
  shows "popped_so_far (pq_pop q) B (P @ [pq_top q])"
proof -
  have dq: "drain_order q = pq_top q # drain_order (pq_pop q)" using hp ne by (rule drain_order_step)
  from inv ne obtain k where B: "B \<noteq> []"
    and P: "P = concat (map batch_order (butlast B)) @ take k (batch_order (last B))"
    and d: "drain_order q = drop k (batch_order (last B))"
    by (auto simp: popped_so_far_def)
  let ?X = "batch_order (last B)"
  from d dq have dk: "drop k ?X = pq_top q # drain_order (pq_pop q)" by simp
  then have kl: "k < length ?X" by (cases "k < length ?X") auto
  from dk kl have xk: "?X ! k = pq_top q"
    by (metis Cons_nth_drop_Suc list.inject)
  from dk kl have ds: "drop (Suc k) ?X = drain_order (pq_pop q)"
    by (metis Cons_nth_drop_Suc list.inject)
  have "take (Suc k) ?X = take k ?X @ [pq_top q]"
    using kl xk by (simp add: take_Suc_conv_app_nth)
  then have "P @ [pq_top q] = concat (map batch_order (butlast B)) @ take (Suc k) ?X"
    using P by simp
  with B ds show ?thesis unfolding popped_so_far_def by metis
qed

lemma popped_in_order: "popped_so_far q B P \<Longrightarrow> in_order B P"
proof -
  assume a: "popped_so_far q B P"
  show ?thesis
  proof (cases "B = []")
    case True
    with a show ?thesis by (simp add: popped_so_far_def in_order_def)
  next
    case False
    with a obtain k where P: "P = concat (map batch_order (butlast B)) @ take k (batch_order (last B))"
      by (auto simp: popped_so_far_def)
    have "concat (map batch_order B) = concat (map batch_order (butlast B @ [last B]))"
      using False by simp
    also have "\<dots> = concat (map batch_order (butlast B)) @ batch_order (last B)" by simp
    finally have all: "concat (map batch_order B) = concat (map batch_order (butlast B)) @ batch_order (last B)" .
    have "prefix (take k (batch_order (last B))) (batch_order (last B))" by (rule take_is_prefix)
    then show ?thesis unfolding in_order_def P all by simp
  qed
qed

lemma queue_inv_in_order: "queue_inv t q e B P \<Longrightarrow> in_order B P"
proof (cases "\<exists>b. t = Some (At_move b)")
  case True
  assume a: "queue_inv t q e B P"
  from True obtain b where t: "t = Some (At_move b)" ..
  from a have B: "B \<noteq> []" and P: "P = concat (map batch_order (butlast B))"
    unfolding t queue_inv_move by simp_all
  have "concat (map batch_order B) = concat (map batch_order (butlast B @ [last B]))"
    using B by simp
  then show ?thesis unfolding in_order_def P by simp
next
  case False
  assume a: "queue_inv t q e B P"
  from False have "\<And>b. t \<noteq> Some (At_move b)" by simp
  from a [unfolded queue_inv_not_move [OF this]] show ?thesis by (blast intro: popped_in_order)
qed

lemma batches_observe_other: "a \<noteq> Sched \<Longrightarrow> batches (observe a s) = [] \<and> pops (observe a s) = []"
  by (cases a) (simp_all add: observe_def)

lemma thread_inv_rethread:
  assumes inv: "thread_inv s B P"
    and q: "scheduler_queue s' = scheduler_queue s" and e: "g_epoch_state s' = g_epoch_state s"
    and t: "scheduler_thread s' = scheduler_thread s \<or>
            ((\<forall>b. scheduler_thread s \<noteq> Some (At_move b)) \<and> (\<forall>b. scheduler_thread s' \<noteq> Some (At_move b)) \<and>
             (scheduler_thread s' = Some At_collect \<longrightarrow> scheduler_queue s = []))"
  shows "thread_inv s' B P"
proof (cases "scheduler_thread s' = scheduler_thread s")
  case True
  with inv q e show ?thesis by (simp add: thread_inv_def)
next
  case False
  with t have old: "\<And>b. scheduler_thread s \<noteq> Some (At_move b)"
    and new: "\<And>b. scheduler_thread s' \<noteq> Some (At_move b)"
    and col: "scheduler_thread s' = Some At_collect \<longrightarrow> scheduler_queue s = []"
    by auto
  have "queue_inv (scheduler_thread s') (scheduler_queue s) (g_epoch_state s) B P"
    by (rule queue_inv_rethread [OF inv [unfolded thread_inv_def] old new col])
  then show ?thesis by (simp add: thread_inv_def q e)
qed

lemma request_wait_frame:
  assumes "request_wait woken w wk s = Inr s'"
  shows "scheduler_thread s' = scheduler_thread s \<and> scheduler_queue s' = scheduler_queue s \<and>
         g_epoch_state s' = g_epoch_state s"
  using assms
  by (auto simp: request_wait_def request_test_def set_worker_def set_waiter_def
           split: option.splits worker_pc.splits if_splits)

lemma request_step_frame:
  assumes "request_step w s = Inr s'"
  shows "scheduler_thread s' = scheduler_thread s \<and> scheduler_queue s' = scheduler_queue s \<and>
         g_epoch_state s' = g_epoch_state s"
  using assms request_wait_frame [of At_delete w _ s s']
  by (auto simp: request_step_def request_push_def set_worker_def
           split: option.splits worker_pc.splits if_splits)

lemma request_step_owning_frame:
  assumes "request_step_owning w s = Inr s'"
  shows "scheduler_thread s' = scheduler_thread s \<and> scheduler_queue s' = scheduler_queue s \<and>
         g_epoch_state s' = g_epoch_state s"
  using assms request_wait_frame [of Returned w _ s s']
  by (auto simp: request_step_owning_def request_push_def set_worker_def destroy_waiter_of_def Let_def
           split: option.splits worker_pc.splits if_splits)

lemma request_enter_frame:
  "scheduler_thread (request_enter w lid prio s) = scheduler_thread s \<and>
   scheduler_queue (request_enter w lid prio s) = scheduler_queue s \<and>
   g_epoch_state (request_enter w lid prio s) = g_epoch_state s"
  by (simp add: request_enter_def set_worker_def)

lemma shutdown_enter_frame:
  "scheduler_thread (shutdown_enter s) = scheduler_thread s \<and>
   scheduler_queue (shutdown_enter s) = scheduler_queue s \<and>
   g_epoch_state (shutdown_enter s) = g_epoch_state s"
  by (simp add: shutdown_enter_def)

lemma shutdown_loop_frame:
  assumes "shutdown_loop p s = Inr s'"
  shows "scheduler_queue s' = scheduler_queue s \<and> g_epoch_state s' = g_epoch_state s \<and>
         (scheduler_thread s' = scheduler_thread s \<or> (thread_has_exited s \<and> scheduler_thread s' = None))"
  using assms
  by (auto simp: shutdown_loop_def set_waiter_def split: shutdown_pc.splits option.splits if_splits)

lemma shutdown_finish_frame:
  assumes "shutdown_finish s = Inr s'"
  shows "scheduler_queue s' = scheduler_queue s \<and> g_epoch_state s' = g_epoch_state s \<and>
         (scheduler_thread s' = scheduler_thread s \<or> (thread_has_exited s \<and> scheduler_thread s' = None))"
  using assms shutdown_loop_frame [of _ s s']
  by (auto simp: shutdown_finish_def split: shutdown_pc.splits option.splits)

lemma shutdown_finish_owning_frame:
  assumes "shutdown_finish_owning s = Inr s'"
  shows "scheduler_queue s' = scheduler_queue s \<and> g_epoch_state s' = g_epoch_state s \<and>
         (scheduler_thread s' = scheduler_thread s \<or> (thread_has_exited s \<and> scheduler_thread s' = None))"
  using assms shutdown_loop_frame [of _ s s']
  by (auto simp: shutdown_finish_owning_def split: shutdown_pc.splits option.splits)

lemma exited_inv:
  assumes inv: "thread_inv s B P"
    and fr: "scheduler_queue s' = scheduler_queue s \<and> g_epoch_state s' = g_epoch_state s \<and>
         (scheduler_thread s' = scheduler_thread s \<or> (thread_has_exited s \<and> scheduler_thread s' = None))"
  shows "thread_inv s' B P"
  by (rule thread_inv_rethread [OF inv]) (use fr in \<open>auto simp: thread_has_exited_def\<close>)

lemma init_inv:
  assumes inv: "thread_inv s B P" and st: "scheduler_init env s = Inr s'"
  shows "thread_inv s' B P"
proof (cases "scheduler_running s")
  case True
  with st inv show ?thesis by (simp add: scheduler_init_noop)
next
  case False
  show ?thesis
  proof (cases "scheduler_thread s")
    case None
    from scheduler_init_fresh [OF False None, of env] st
    have q: "scheduler_queue s' = scheduler_queue s" and e: "g_epoch_state s' = g_epoch_state s"
      and t: "scheduler_thread s' = Some At_loop"
      by auto
    show ?thesis by (rule thread_inv_rethread [OF inv q e]) (simp add: t None)
  next
    case (Some p)
    with False st show ?thesis
      by (auto simp: scheduler_init_def Let_def init_rng_def split: option.splits sum.splits if_splits)
  qed
qed

text \<open>The steps of the scheduler thread that are the same in both versions.\<close>

lemma sched_common_inv:
  assumes inv: "thread_inv s B P"
  shows "scheduler_thread s = Some At_loop \<Longrightarrow>
           thread_inv (sched_loop s) (B @ batches (observe Sched s)) (P @ pops (observe Sched s))"
    and "scheduler_thread s = Some At_collect \<Longrightarrow>
           thread_inv (sched_collect s) (B @ batches (observe Sched s)) (P @ pops (observe Sched s))"
    and "scheduler_thread s = Some (At_move b) \<Longrightarrow> \<not> global_mutex_held s \<Longrightarrow>
           thread_inv (sched_move b s) (B @ batches (observe Sched s)) (P @ pops (observe Sched s))"
proof -
  let ?q = "scheduler_queue s" and ?e = "g_epoch_state s"
  {
    assume t: "scheduler_thread s = Some At_loop"
    have nm: "\<And>b. Some At_loop \<noteq> Some (At_move b)" by simp
    from inv have qi: "queue_inv (Some At_loop) ?q ?e B P" by (simp add: thread_inv_def t)
    note parts = qi [unfolded queue_inv_not_move [OF nm]]
    have ob: "observe Sched s = []" by (simp add: observe_def t)
    have "thread_inv (sched_loop s) B P"
      by (rule thread_inv_rethread [OF inv]) (use parts in \<open>auto simp: sched_loop_def set_thread_def t\<close>)
    then show "thread_inv (sched_loop s) (B @ batches (observe Sched s)) (P @ pops (observe Sched s))"
      by (simp add: ob)
  next
    assume t: "scheduler_thread s = Some At_collect"
    have nm: "\<And>b. Some At_collect \<noteq> Some (At_move b)" by simp
    from inv have qi: "queue_inv (Some At_collect) ?q ?e B P" by (simp add: thread_inv_def t)
    note parts = qi [unfolded queue_inv_not_move [OF nm]]
    from parts have qe: "?q = []" by simp
    show "thread_inv (sched_collect s) (B @ batches (observe Sched s)) (P @ pops (observe Sched s))"
    proof (cases "pending_requests s = []")
      case True
      have ob: "observe Sched s = []" by (simp add: observe_def t True)
      have "thread_inv (sched_collect s) B P"
        by (rule thread_inv_rethread [OF inv]) (auto simp: sched_collect_def set_thread_def t True)
      then show ?thesis by (simp add: ob)
    next
      case False
      let ?b = "pending_requests s"
      have ob: "observe Sched s = [Swapped ?b]" by (simp add: observe_def t False)
      have q: "scheduler_queue (sched_collect s) = ?q" and e: "g_epoch_state (sched_collect s) = ?e"
        and t': "scheduler_thread (sched_collect s) = Some (At_move ?b)"
        by (simp_all add: sched_collect_def set_thread_def False)
      from parts qe have "popped_so_far [] B P" by simp
      then have P: "P = concat (map batch_order B)" by (rule popped_all)
      have "queue_inv (Some (At_move ?b)) [] ?e (B @ [?b]) P"
        unfolding queue_inv_move using P by simp
      then show ?thesis by (simp add: thread_inv_def q e t' ob qe)
    qed
  next
    assume t: "scheduler_thread s = Some (At_move b)" and free: "\<not> global_mutex_held s"
    from inv have qi: "queue_inv (Some (At_move b)) ?q ?e B P" by (simp add: thread_inv_def t)
    then have qe: "?q = []" and B: "B \<noteq> []" and lb: "last B = b"
      and P: "P = concat (map batch_order (butlast B))"
      unfolding queue_inv_move by simp_all
    have ob: "observe Sched s = []" by (simp add: observe_def t)
    let ?q' = "foldl (\<lambda>q x. pq_push x q) [] b"
    have q: "scheduler_queue (sched_move b s) = ?q'" and e: "g_epoch_state (sched_move b s) = DRAINING"
      and t': "scheduler_thread (sched_move b s) = Some At_loop"
      by (simp_all add: sched_move_def set_thread_def qe)
    from foldl_pq_push [OF is_heap_empty, of b] have hp: "is_heap (length ?q') ?q'" by simp
    have "P = concat (map batch_order (butlast B)) @ take 0 (batch_order (last B)) \<and>
          drain_order ?q' = drop 0 (batch_order (last B))"
      using P lb by (simp add: batch_order_def)
    then have "popped_so_far ?q' B P" unfolding popped_so_far_def using B by blast
    with hp have "queue_inv (Some At_loop) ?q' DRAINING B P"
      by (simp add: queue_inv_not_move)
    then show "thread_inv (sched_move b s) (B @ batches (observe Sched s)) (P @ pops (observe Sched s))"
      by (simp add: thread_inv_def q e t' ob)
  }
qed

lemma signal_notify_inv:
  assumes inv: "thread_inv s B P"
  shows "scheduler_thread s = Some (At_signal ptr) \<Longrightarrow> sched_signal ptr s = Inr s' \<Longrightarrow>
           thread_inv s' (B @ batches (observe Sched s)) (P @ pops (observe Sched s))"
    and "scheduler_thread s = Some (At_notify ptr) \<Longrightarrow> sched_notify ptr next s = Inr s' \<Longrightarrow>
           next = At_loop \<or> next = At_scope_exit ptr \<Longrightarrow>
           thread_inv s' (B @ batches (observe Sched s)) (P @ pops (observe Sched s))"
proof -
  {
    assume t: "scheduler_thread s = Some (At_signal ptr)" and st: "sched_signal ptr s = Inr s'"
    have ob: "batches (observe Sched s) = [] \<and> pops (observe Sched s) = []"
      by (simp add: observe_def t split: option.splits)
    have "thread_inv s' B P"
      by (rule thread_inv_rethread [OF inv])
         (use st t in \<open>auto simp: sched_signal_def set_thread_def set_waiter_def split: option.splits if_splits\<close>)
    then show "thread_inv s' (B @ batches (observe Sched s)) (P @ pops (observe Sched s))"
      by (simp add: ob)
  next
    assume t: "scheduler_thread s = Some (At_notify ptr)" and st: "sched_notify ptr next s = Inr s'"
      and nx: "next = At_loop \<or> next = At_scope_exit ptr"
    have ob: "observe Sched s = []" by (simp add: observe_def t)
    have "thread_inv s' B P"
      by (rule thread_inv_rethread [OF inv])
         (use st nx t in \<open>auto simp: sched_notify_def set_thread_def set_waiter_def split: option.splits\<close>)
    then show "thread_inv s' (B @ batches (observe Sched s)) (P @ pops (observe Sched s))"
      by (simp add: ob)
  }
qed

lemma drain_inv:
  assumes inv: "thread_inv s B P" and t: "scheduler_thread s = Some At_drain"
    and free: "\<not> global_mutex_held s"
    and q': "scheduler_queue s' = (if scheduler_queue s = [] then [] else pq_pop (scheduler_queue s))"
    and e': "g_epoch_state s' = (if scheduler_queue s = [] then COLLECTING else g_epoch_state s)"
    and t': "\<exists>p. scheduler_thread s' = Some p \<and> (p = At_loop \<or> (\<exists>ptr. p = At_signal ptr))"
  shows "thread_inv s' (B @ batches (observe Sched s)) (P @ pops (observe Sched s))"
proof -
  let ?q = "scheduler_queue s" and ?e = "g_epoch_state s"
  have nm: "\<And>b. Some At_drain \<noteq> Some (At_move b)" by simp
  from inv have qi: "queue_inv (Some At_drain) ?q ?e B P" by (simp add: thread_inv_def t)
  note parts = qi [unfolded queue_inv_not_move [OF nm]]
  from t' obtain p where p: "scheduler_thread s' = Some p" and pp: "p = At_loop \<or> (\<exists>ptr. p = At_signal ptr)"
    by blast
  have nm': "\<And>b. Some p \<noteq> Some (At_move b)" using pp by auto
  have nc: "Some p \<noteq> Some At_collect" using pp by auto
  show ?thesis
  proof (cases "?q = []")
    case True
    have ob: "observe Sched s = []" by (simp add: observe_def t True)
    from parts True nc have "queue_inv (Some p) [] COLLECTING B P"
      unfolding queue_inv_not_move [OF nm'] by simp
    then show ?thesis using q' e' by (simp add: thread_inv_def p ob True)
  next
    case False
    have ob: "batches (observe Sched s) = [] \<and> pops (observe Sched s) = [pq_top ?q]"
      using free by (simp add: observe_def t False)
    from parts have hp: "is_heap (length ?q) ?q" and ps: "popped_so_far ?q B P"
      and ec: "?e \<noteq> COLLECTING" using False by auto
    from pq_pop_props [OF hp False] have hp': "is_heap (length (pq_pop ?q)) (pq_pop ?q)" by blast
    from popped_one_more [OF ps hp False]
    have "popped_so_far (pq_pop ?q) B (P @ [pq_top ?q])" .
    with hp' ec nc have "queue_inv (Some p) (pq_pop ?q) ?e B (P @ [pq_top ?q])"
      unfolding queue_inv_not_move [OF nm'] by simp
    then show ?thesis using q' e' by (simp add: thread_inv_def p ob False)
  qed
qed

lemma sched_step_inv:
  assumes inv: "thread_inv s B P" and st: "sched_step s = Inr s'"
  shows "thread_inv s' (B @ batches (observe Sched s)) (P @ pops (observe Sched s))"
proof (cases "scheduler_thread s")
  case None
  with st inv show ?thesis by (simp add: sched_step_def observe_def)
next
  case (Some p)
  show ?thesis
  proof (cases p)
    case At_loop
    with st Some sched_common_inv(1) [OF inv] show ?thesis by (simp add: sched_step_def)
  next
    case At_collect
    with st Some sched_common_inv(2) [OF inv] show ?thesis by (simp add: sched_step_def)
  next
    case (At_move b)
    show ?thesis
    proof (cases "global_mutex_held s")
      case True
      with st Some At_move inv show ?thesis by (simp add: sched_step_def observe_def)
    next
      case False
      with st Some At_move sched_common_inv(3) [OF inv, of b] show ?thesis by (simp add: sched_step_def)
    qed
  next
    case At_drain
    show ?thesis
    proof (cases "global_mutex_held s")
      case True
      with st Some At_drain inv show ?thesis by (simp add: sched_step_def observe_def)
    next
      case False
      from st Some At_drain False have sd: "sched_drain s = Inr s'" by (simp add: sched_step_def)
      show ?thesis
      proof (rule drain_inv [OF inv _ False])
        show "scheduler_thread s = Some At_drain" using Some At_drain by simp
        show "scheduler_queue s' = (if scheduler_queue s = [] then [] else pq_pop (scheduler_queue s))"
          using sd by (auto simp: sched_drain_def set_thread_def Let_def split: if_splits option.splits)
        show "g_epoch_state s' = (if scheduler_queue s = [] then COLLECTING else g_epoch_state s)"
          using sd by (auto simp: sched_drain_def set_thread_def Let_def split: if_splits option.splits)
        show "\<exists>p. scheduler_thread s' = Some p \<and> (p = At_loop \<or> (\<exists>ptr. p = At_signal ptr))"
          using sd by (auto simp: sched_drain_def set_thread_def Let_def split: if_splits option.splits)
      qed
    qed
  next
    case (At_signal ptr)
    with st Some signal_notify_inv(1) [OF inv, of ptr s'] show ?thesis by (simp add: sched_step_def)
  next
    case (At_notify ptr)
    with st Some signal_notify_inv(2) [OF inv, of ptr At_loop s'] show ?thesis by (simp add: sched_step_def)
  next
    case (At_scope_exit ptr)
    with st inv Some show ?thesis by (simp add: sched_step_def observe_def)
  next
    case Exited
    with st inv Some show ?thesis by (simp add: sched_step_def observe_def)
  qed
qed

lemma sched_step_owning_inv:
  assumes inv: "thread_inv s B P" and st: "sched_step_owning s = Inr s'"
  shows "thread_inv s' (B @ batches (observe Sched s)) (P @ pops (observe Sched s))"
proof (cases "scheduler_thread s")
  case None
  with st inv show ?thesis by (simp add: sched_step_owning_def observe_def)
next
  case (Some p)
  show ?thesis
  proof (cases p)
    case At_loop
    with st Some sched_common_inv(1) [OF inv] show ?thesis by (simp add: sched_step_owning_def)
  next
    case At_collect
    with st Some sched_common_inv(2) [OF inv] show ?thesis by (simp add: sched_step_owning_def)
  next
    case (At_move b)
    show ?thesis
    proof (cases "global_mutex_held s")
      case True
      with st Some At_move inv show ?thesis by (simp add: sched_step_owning_def observe_def)
    next
      case False
      with st Some At_move sched_common_inv(3) [OF inv, of b] show ?thesis
        by (simp add: sched_step_owning_def)
    qed
  next
    case At_drain
    show ?thesis
    proof (cases "global_mutex_held s")
      case True
      with st Some At_drain inv show ?thesis by (simp add: sched_step_owning_def observe_def)
    next
      case False
      from st Some At_drain False have sd: "s' = sched_drain_owning s" by (simp add: sched_step_owning_def)
      show ?thesis
      proof (rule drain_inv [OF inv _ False])
        show "scheduler_thread s = Some At_drain" using Some At_drain by simp
        show "scheduler_queue s' = (if scheduler_queue s = [] then [] else pq_pop (scheduler_queue s))"
          by (simp add: sd sched_drain_owning_def set_thread_def Let_def split: option.splits)
        show "g_epoch_state s' = (if scheduler_queue s = [] then COLLECTING else g_epoch_state s)"
          by (simp add: sd sched_drain_owning_def set_thread_def Let_def split: option.splits)
        show "\<exists>p. scheduler_thread s' = Some p \<and> (p = At_loop \<or> (\<exists>ptr. p = At_signal ptr))"
          by (cases "map_find (snd (pq_top (scheduler_queue s))) (trx_wait_map s)")
             (simp_all add: sd sched_drain_owning_def set_thread_def Let_def)
      qed
    qed
  next
    case (At_signal ptr)
    with st Some signal_notify_inv(1) [OF inv, of ptr s'] show ?thesis by (simp add: sched_step_owning_def)
  next
    case (At_notify ptr)
    with st Some signal_notify_inv(2) [OF inv, of ptr "At_scope_exit ptr" s'] show ?thesis
      by (simp add: sched_step_owning_def)
  next
    case (At_scope_exit ptr)
    from st Some At_scope_exit
    have s': "s' = set_thread At_loop (s\<lparr>wait_objects := (wait_objects s)(ptr := None)\<rparr>)"
      by (simp add: sched_step_owning_def)
    have ob: "observe Sched s = []" by (simp add: observe_def Some At_scope_exit)
    have "thread_inv s' B P"
      by (rule thread_inv_rethread [OF inv]) (simp_all add: s' set_thread_def Some At_scope_exit)
    then show ?thesis by (simp add: ob)
  next
    case Exited
    with st inv Some show ?thesis by (simp add: sched_step_owning_def observe_def)
  qed
qed

lemma step_inv:
  assumes inv: "thread_inv s B P" and st: "step a s = Inr s'"
  shows "thread_inv s' (B @ batches (observe a s)) (P @ pops (observe a s))"
proof (cases a)
  case (Init env)
  with init_inv [OF inv, of env s'] st show ?thesis by (simp add: batches_observe_other)
next
  case (Enter w lid prio)
  with st have "s' = request_enter w lid prio s" by simp
  with inv request_enter_frame [of w lid prio s] show ?thesis
    by (simp add: thread_inv_def batches_observe_other Enter)
next
  case (Worker w)
  with st have "request_step w s = Inr s'" by simp
  from request_step_frame [OF this] inv show ?thesis
    by (simp add: thread_inv_def batches_observe_other Worker)
next
  case Sched
  with sched_step_inv [OF inv, of s'] st show ?thesis by simp
next
  case Shutdown_enter
  with st have "s' = shutdown_enter s" by simp
  with inv shutdown_enter_frame [of s] show ?thesis
    by (simp add: thread_inv_def batches_observe_other Shutdown_enter)
next
  case Shutdown_finish
  with st have "shutdown_finish s = Inr s'" by simp
  from exited_inv [OF inv shutdown_finish_frame [OF this]] show ?thesis
    by (simp add: batches_observe_other Shutdown_finish)
qed

lemma step_owning_inv:
  assumes inv: "thread_inv s B P" and st: "step_owning a s = Inr s'"
  shows "thread_inv s' (B @ batches (observe a s)) (P @ pops (observe a s))"
proof (cases a)
  case (Init env)
  with init_inv [OF inv, of env s'] st show ?thesis by (simp add: batches_observe_other)
next
  case (Enter w lid prio)
  with st have "s' = request_enter w lid prio s" by simp
  with inv request_enter_frame [of w lid prio s] show ?thesis
    by (simp add: thread_inv_def batches_observe_other Enter)
next
  case (Worker w)
  with st have "request_step_owning w s = Inr s'" by simp
  from request_step_owning_frame [OF this] inv show ?thesis
    by (simp add: thread_inv_def batches_observe_other Worker)
next
  case Sched
  with sched_step_owning_inv [OF inv, of s'] st show ?thesis by simp
next
  case Shutdown_enter
  with st have "s' = shutdown_enter s" by simp
  with inv shutdown_enter_frame [of s] show ?thesis
    by (simp add: thread_inv_def batches_observe_other Shutdown_enter)
next
  case Shutdown_finish
  with st have "shutdown_finish_owning s = Inr s'" by simp
  from exited_inv [OF inv shutdown_finish_owning_frame [OF this]] show ?thesis
    by (simp add: batches_observe_other Shutdown_finish)
qed

lemma events_inv:
  "thread_inv s B P \<Longrightarrow>
   \<exists>t q e. queue_inv t q e (B @ batches (events as s)) (P @ pops (events as s))"
proof (induction as arbitrary: s B P)
  case Nil
  then show ?case unfolding thread_inv_def by auto
next
  case (Cons a as)
  show ?case
  proof (cases "step a s")
    case (Inl f)
    with Cons.prems show ?thesis unfolding thread_inv_def by auto
  next
    case (Inr s1)
    from step_inv [OF Cons.prems Inr]
    have "thread_inv s1 (B @ batches (observe a s)) (P @ pops (observe a s))" .
    from Cons.IH [OF this] show ?thesis
      by (simp add: Inr batches_append pops_append)
  qed
qed

lemma events_owning_inv:
  "thread_inv s B P \<Longrightarrow>
   \<exists>t q e. queue_inv t q e (B @ batches (events_owning as s)) (P @ pops (events_owning as s))"
proof (induction as arbitrary: s B P)
  case Nil
  then show ?case unfolding thread_inv_def by auto
next
  case (Cons a as)
  show ?case
  proof (cases "step_owning a s")
    case (Inl f)
    with Cons.prems show ?thesis unfolding thread_inv_def by auto
  next
    case (Inr s1)
    from step_owning_inv [OF Cons.prems Inr]
    have "thread_inv s1 (B @ batches (observe a s)) (P @ pops (observe a s))" .
    from Cons.IH [OF this] show ?thesis
      by (simp add: Inr batches_append pops_append)
  qed
qed

lemma thread_inv_initial: "thread_inv initial_scheduler [] []"
  by (simp add: thread_inv_def initial_scheduler_def queue_inv_def popped_so_far_def is_heap_def)

lemma pops_in_order:
  "in_order (batches (events as initial_scheduler)) (pops (events as initial_scheduler))"
  "in_order (batches (events_owning as initial_scheduler)) (pops (events_owning as initial_scheduler))"
proof -
  from events_inv [OF thread_inv_initial, of as]
  obtain t q e where
    "queue_inv t q e (batches (events as initial_scheduler)) (pops (events as initial_scheduler))"
    by auto
  then show "in_order (batches (events as initial_scheduler)) (pops (events as initial_scheduler))"
    by (rule queue_inv_in_order)
  from events_owning_inv [OF thread_inv_initial, of as]
  obtain t q e where
    "queue_inv t q e (batches (events_owning as initial_scheduler)) (pops (events_owning as initial_scheduler))"
    by auto
  then show "in_order (batches (events_owning as initial_scheduler)) (pops (events_owning as initial_scheduler))"
    by (rule queue_inv_in_order)
qed

section \<open>The invariant of an orderly execution\<close>

text \<open>
  The rules of \<open>linked\<close>, and how it is kept when a worker moves on, pushes its entry or inserts
  its waiter, when a worker enters, when an entry is popped and when a flag is set.
\<close>

lemma linkedI:
  assumes "\<And>w wk. W w = Some wk \<Longrightarrow>
         w \<in> set ws \<and> snd (priority_entry wk) = trx_lib_id wk \<and> wait_info_ptr wk < n \<and>
         map_of S (wait_info_ptr wk) = Some (priority_entry wk)"
    and "\<And>e. e \<in> set S \<Longrightarrow> fst e < n"
    and "\<And>p. p \<in> set sp \<Longrightarrow> p < n"
    and "\<And>w w' wk wk'. W w = Some wk \<Longrightarrow> W w' = Some wk' \<Longrightarrow> wait_info_ptr wk = wait_info_ptr wk' \<Longrightarrow> w = w'"
    and "\<And>w w' wk wk'. W w = Some wk \<Longrightarrow> W w' = Some wk' \<Longrightarrow> pc wk \<noteq> Returned \<Longrightarrow> pc wk' \<noteq> Returned \<Longrightarrow>
          trx_lib_id wk = trx_lib_id wk' \<Longrightarrow> w = w'"
    and "\<And>x. x \<in> set Q \<Longrightarrow> \<exists>w wk. W w = Some wk \<and> priority_entry wk = x \<and> waiting (pc wk)"
    and "distinct (map snd Q)"
    and "\<And>w wk. W w = Some wk \<Longrightarrow>
          pc wk = At_push \<or> pc wk = At_insert \<or> (parked (pc wk) \<and> priority_entry wk \<in> set Q) \<Longrightarrow>
          \<not> R (wait_info_ptr wk) \<and> wait_info_ptr wk \<notin> set sp"
    and "\<And>e. e \<in> set M \<Longrightarrow>
          \<not> R (snd e) \<and> snd e \<notin> set sp \<and>
          (\<exists>w wk. W w = Some wk \<and> trx_lib_id wk = fst e \<and> wait_info_ptr wk = snd e \<and> parked (pc wk))"
  shows "linked ws W Q M R sp n S"
  unfolding linked_def
  apply (intro conjI allI ballI impI)
  using assms(1) apply blast
  using assms(1) apply blast
  using assms(1) apply blast
  using assms(1) apply blast
  using assms(2) apply blast
  using assms(3) apply blast
  using assms(4) apply blast
  using assms(5) apply blast
  using assms(6) apply blast
  using assms(7) apply blast
  using assms(8) apply blast
  using assms(8) apply blast
  using assms(9) apply blast
  using assms(9) apply blast
  using assms(9) apply blast
  done

lemma linked_worker:
  "linked ws W Q M R sp n S \<Longrightarrow> W w = Some wk \<Longrightarrow>
     w \<in> set ws \<and> snd (priority_entry wk) = trx_lib_id wk \<and> wait_info_ptr wk < n \<and>
     map_of S (wait_info_ptr wk) = Some (priority_entry wk)"
  unfolding linked_def by (elim conjE) blast

lemma linked_fresh: "linked ws W Q M R sp n S \<Longrightarrow> e \<in> set S \<Longrightarrow> fst e < n"
  unfolding linked_def by (elim conjE) blast

lemma linked_sp: "linked ws W Q M R sp n S \<Longrightarrow> p \<in> set sp \<Longrightarrow> p < n"
  unfolding linked_def by (elim conjE) blast

lemma linked_ptr:
  "linked ws W Q M R sp n S \<Longrightarrow> W w = Some wk \<Longrightarrow> W w' = Some wk' \<Longrightarrow>
   wait_info_ptr wk = wait_info_ptr wk' \<Longrightarrow> w = w'"
  unfolding linked_def by (elim conjE) blast

lemma linked_lid:
  "linked ws W Q M R sp n S \<Longrightarrow> W w = Some wk \<Longrightarrow> W w' = Some wk' \<Longrightarrow>
   pc wk \<noteq> Returned \<Longrightarrow> pc wk' \<noteq> Returned \<Longrightarrow> trx_lib_id wk = trx_lib_id wk' \<Longrightarrow> w = w'"
  unfolding linked_def by (elim conjE) blast

lemma linked_queue:
  "linked ws W Q M R sp n S \<Longrightarrow> x \<in> set Q \<Longrightarrow>
   \<exists>w wk. W w = Some wk \<and> priority_entry wk = x \<and> waiting (pc wk)"
  unfolding linked_def by (elim conjE) blast

lemma linked_distinct: "linked ws W Q M R sp n S \<Longrightarrow> distinct (map snd Q)"
  unfolding linked_def by (elim conjE)

lemma linked_unreleased:
  "linked ws W Q M R sp n S \<Longrightarrow> W w = Some wk \<Longrightarrow>
   pc wk = At_push \<or> pc wk = At_insert \<or> (parked (pc wk) \<and> priority_entry wk \<in> set Q) \<Longrightarrow>
   \<not> R (wait_info_ptr wk) \<and> wait_info_ptr wk \<notin> set sp"
  unfolding linked_def by (elim conjE) blast

lemma linked_map:
  "linked ws W Q M R sp n S \<Longrightarrow> e \<in> set M \<Longrightarrow>
   \<not> R (snd e) \<and> snd e \<notin> set sp \<and>
   (\<exists>w wk. W w = Some wk \<and> trx_lib_id wk = fst e \<and> wait_info_ptr wk = snd e \<and> parked (pc wk))"
  unfolding linked_def by (elim conjE) blast

lemma linked_mono:
  assumes l: "linked ws W Q M R sp n S"
    and "set Q' \<subseteq> set Q" and "distinct (map snd Q')" and "\<And>p. R' p \<Longrightarrow> R p"
  shows "linked ws W Q' M R' sp n S"
proof (rule linkedI)
  show "\<And>w wk. W w = Some wk \<Longrightarrow>
         w \<in> set ws \<and> snd (priority_entry wk) = trx_lib_id wk \<and> wait_info_ptr wk < n \<and>
         map_of S (wait_info_ptr wk) = Some (priority_entry wk)"
    by (rule linked_worker [OF l])
  show "\<And>e. e \<in> set S \<Longrightarrow> fst e < n" by (rule linked_fresh [OF l])
  show "\<And>p. p \<in> set sp \<Longrightarrow> p < n" by (rule linked_sp [OF l])
  show "\<And>w w' wk wk'. W w = Some wk \<Longrightarrow> W w' = Some wk' \<Longrightarrow> wait_info_ptr wk = wait_info_ptr wk' \<Longrightarrow> w = w'"
    by (rule linked_ptr [OF l])
  show "\<And>w w' wk wk'. W w = Some wk \<Longrightarrow> W w' = Some wk' \<Longrightarrow> pc wk \<noteq> Returned \<Longrightarrow> pc wk' \<noteq> Returned \<Longrightarrow>
          trx_lib_id wk = trx_lib_id wk' \<Longrightarrow> w = w'"
    by (rule linked_lid [OF l])
  show "\<And>x. x \<in> set Q' \<Longrightarrow> \<exists>w wk. W w = Some wk \<and> priority_entry wk = x \<and> waiting (pc wk)"
    using linked_queue [OF l] assms(2) by blast
  show "distinct (map snd Q')" by fact
  show "\<And>w wk. W w = Some wk \<Longrightarrow>
          pc wk = At_push \<or> pc wk = At_insert \<or> (parked (pc wk) \<and> priority_entry wk \<in> set Q') \<Longrightarrow>
          \<not> R' (wait_info_ptr wk) \<and> wait_info_ptr wk \<notin> set sp"
    using linked_unreleased [OF l] assms(2,4) by blast
  show "\<And>e. e \<in> set M \<Longrightarrow>
          \<not> R' (snd e) \<and> snd e \<notin> set sp \<and>
          (\<exists>w wk. W w = Some wk \<and> trx_lib_id wk = fst e \<and> wait_info_ptr wk = snd e \<and> parked (pc wk))"
    using linked_map [OF l] assms(4) by blast
qed


lemma linked_pc:
  assumes l: "linked ws W Q M R sp n S" and w: "W w = Some wk"
    and c: "(parked (pc wk) \<and> parked p') \<or>
            (parked (pc wk) \<and> R (wait_info_ptr wk) \<and> (p' = At_delete \<or> p' = Returned)) \<or>
            (pc wk = At_delete \<and> (p' = Returned \<or> p' = At_delete))"
  shows "linked ws (W(w \<mapsto> wk\<lparr>pc := p'\<rparr>)) Q M R sp n S"
proof (rule linkedI)
  let ?W = "W(w \<mapsto> wk\<lparr>pc := p'\<rparr>)"
  have old: "pc wk \<noteq> Returned \<and> pc wk \<noteq> At_push \<and> pc wk \<noteq> At_insert"
    using c by (auto simp: parked_def)
  have new: "p' \<noteq> At_push \<and> p' \<noteq> At_insert" using c by (auto simp: parked_def)
  have same: "\<And>a wa. ?W a = Some wa \<Longrightarrow>
     \<exists>wa'. W a = Some wa' \<and> trx_lib_id wa = trx_lib_id wa' \<and> priority_entry wa = priority_entry wa' \<and>
            wait_info_ptr wa = wait_info_ptr wa' \<and> (a \<noteq> w \<longrightarrow> wa = wa') \<and> (a = w \<longrightarrow> wa' = wk \<and> pc wa = p')"
    using w by (auto split: if_splits)
  have stays: "parked (pc wk) \<and> parked p'" if "priority_entry wk \<in> set Q \<or> (\<exists>e \<in> set M. snd e = wait_info_ptr wk)"
  proof (rule ccontr)
    assume n: "\<not> (parked (pc wk) \<and> parked p')"
    with c have d: "(parked (pc wk) \<and> R (wait_info_ptr wk)) \<or> pc wk = At_delete" by blast
    from that show False
    proof
      assume q: "priority_entry wk \<in> set Q"
      from linked_queue [OF l q] obtain w0 wk0
        where w0: "W w0 = Some wk0" "priority_entry wk0 = priority_entry wk" "waiting (pc wk0)" by blast
      from linked_worker [OF l w0(1)] linked_worker [OF l w] w0(2)
      have "trx_lib_id wk0 = trx_lib_id wk" by simp
      moreover have "pc wk0 \<noteq> Returned" using w0 by (auto simp: waiting_def)
      ultimately have "w0 = w" using linked_lid [OF l w0(1) w] old by blast
      with w0 w have wt: "waiting (pc wk)" by simp
      from d show False
      proof
        assume a: "parked (pc wk) \<and> R (wait_info_ptr wk)"
        with linked_unreleased [OF l w] q show False by blast
      next
        assume "pc wk = At_delete"
        with wt show False by (simp add: waiting_def)
      qed
    next
      assume "\<exists>e \<in> set M. snd e = wait_info_ptr wk"
      then obtain e where e: "e \<in> set M" "snd e = wait_info_ptr wk" by blast
      from linked_map [OF l e(1)] obtain w0 wk0 where nr: "\<not> R (snd e)"
        and w0: "W w0 = Some wk0" "wait_info_ptr wk0 = snd e" "parked (pc wk0)" by blast
      from linked_ptr [OF l w0(1) w] w0(2) e(2) have "w0 = w" by simp
      with w0 w have "parked (pc wk)" by simp
      with d nr e(2) show False by (auto simp: parked_def)
    qed
  qed
  show "\<And>a wa. ?W a = Some wa \<Longrightarrow>
         a \<in> set ws \<and> snd (priority_entry wa) = trx_lib_id wa \<and> wait_info_ptr wa < n \<and>
         map_of S (wait_info_ptr wa) = Some (priority_entry wa)"
    using same linked_worker [OF l] by metis
  show "\<And>e. e \<in> set S \<Longrightarrow> fst e < n" by (rule linked_fresh [OF l])
  show "\<And>p. p \<in> set sp \<Longrightarrow> p < n" by (rule linked_sp [OF l])
  show "\<And>a b wa wb. ?W a = Some wa \<Longrightarrow> ?W b = Some wb \<Longrightarrow> wait_info_ptr wa = wait_info_ptr wb \<Longrightarrow> a = b"
    using same linked_ptr [OF l] by metis
  show "a = b" if "?W a = Some wa" "?W b = Some wb" "pc wa \<noteq> Returned" "pc wb \<noteq> Returned"
          "trx_lib_id wa = trx_lib_id wb" for a b wa wb
  proof -
    from same [OF that(1)] obtain wa' where a: "W a = Some wa'" "trx_lib_id wa = trx_lib_id wa'"
      "a \<noteq> w \<longrightarrow> wa = wa'" "a = w \<longrightarrow> wa' = wk" by blast
    from same [OF that(2)] obtain wb' where b: "W b = Some wb'" "trx_lib_id wb = trx_lib_id wb'"
      "b \<noteq> w \<longrightarrow> wb = wb'" "b = w \<longrightarrow> wb' = wk" by blast
    have "pc wa' \<noteq> Returned" using a that(3) old by (cases "a = w") auto
    moreover have "pc wb' \<noteq> Returned" using b that(4) old by (cases "b = w") auto
    ultimately show ?thesis using linked_lid [OF l a(1) b(1)] a(2) b(2) that(5) by simp
  qed
  show "\<exists>a wa. ?W a = Some wa \<and> priority_entry wa = x \<and> waiting (pc wa)" if x: "x \<in> set Q" for x
  proof -
    from linked_queue [OF l x] obtain w0 wk0
      where w0: "W w0 = Some wk0" "priority_entry wk0 = x" "waiting (pc wk0)" by blast
    show ?thesis
    proof (cases "w0 = w")
      case False
      with w0 show ?thesis by auto
    next
      case True
      with w0 w x have "priority_entry wk \<in> set Q" by simp
      with stays have "waiting p'" by (auto simp: parked_def waiting_def)
      with True w0 w show ?thesis by auto
    qed
  qed
  show "distinct (map snd Q)" by (rule linked_distinct [OF l])
  show "\<not> R (wait_info_ptr wa) \<and> wait_info_ptr wa \<notin> set sp"
    if "?W a = Some wa" "pc wa = At_push \<or> pc wa = At_insert \<or> (parked (pc wa) \<and> priority_entry wa \<in> set Q)"
    for a wa
  proof (cases "a = w")
    case False
    with that linked_unreleased [OF l, of a wa] show ?thesis by auto
  next
    case True
    with that(1) have wa: "wa = wk\<lparr>pc := p'\<rparr>" by simp
    with that(2) new have q: "priority_entry wk \<in> set Q" by auto
    with stays have "parked (pc wk)" by blast
    with linked_unreleased [OF l w] q show ?thesis by (simp add: wa)
  qed
  show "\<not> R (snd e) \<and> snd e \<notin> set sp \<and>
          (\<exists>a wa. ?W a = Some wa \<and> trx_lib_id wa = fst e \<and> wait_info_ptr wa = snd e \<and> parked (pc wa))"
    if e: "e \<in> set M" for e
  proof -
    from linked_map [OF l e] obtain w0 wk0 where nr: "\<not> R (snd e)" "snd e \<notin> set sp"
      and w0: "W w0 = Some wk0" "trx_lib_id wk0 = fst e" "wait_info_ptr wk0 = snd e" "parked (pc wk0)"
      by blast
    have "\<exists>a wa. ?W a = Some wa \<and> trx_lib_id wa = fst e \<and> wait_info_ptr wa = snd e \<and> parked (pc wa)"
    proof (cases "w0 = w")
      case False
      with w0 show ?thesis by auto
    next
      case True
      with w0 w e have "\<exists>e \<in> set M. snd e = wait_info_ptr wk" by auto
      with stays have "parked p'" by blast
      with True w0 w show ?thesis by auto
    qed
    with nr show ?thesis by blast
  qed
qed

lemma distinct_snd_mset:
  assumes "mset Q' = mset Q" shows "distinct (map snd Q') = distinct (map snd Q)"
proof -
  from assms have "mset (map snd Q') = mset (map snd Q)" by (metis mset_map)
  then show ?thesis by (rule mset_eq_imp_distinct_iff)
qed

lemma distinct_snd_add:
  assumes "mset Q' = add_mset x (mset Q)"
  shows "distinct (map snd Q') \<longleftrightarrow> distinct (map snd Q) \<and> snd x \<notin> snd ` set Q"
proof -
  from assms have "mset Q' = mset (x # Q)" by simp
  then have "distinct (map snd Q') = distinct (map snd (x # Q))" by (rule distinct_snd_mset)
  then show ?thesis by auto
qed

lemma linked_push:
  assumes l: "linked ws W Q M R sp n S" and w: "W w = Some wk" and c: "pc wk = At_push"
    and m: "mset Q' = add_mset (priority_entry wk) (mset Q)"
  shows "linked ws (W(w \<mapsto> wk\<lparr>pc := At_insert\<rparr>)) Q' M R sp n S"
proof (rule linkedI)
  let ?W = "W(w \<mapsto> wk\<lparr>pc := At_insert\<rparr>)"
  let ?x = "priority_entry wk"
  from m have sq: "set Q' = insert ?x (set Q)" by (metis mset_eq_setD set_mset_add_mset_insert set_mset_mset)
  have same: "\<And>a wa. ?W a = Some wa \<Longrightarrow>
     \<exists>wa'. W a = Some wa' \<and> trx_lib_id wa = trx_lib_id wa' \<and> priority_entry wa = priority_entry wa' \<and>
            wait_info_ptr wa = wait_info_ptr wa' \<and> (a \<noteq> w \<longrightarrow> wa = wa') \<and> (a = w \<longrightarrow> wa' = wk \<and> pc wa = At_insert)"
    using w by (auto split: if_splits)
  have mine: "w0 = w" if "W w0 = Some wk0" "pc wk0 \<noteq> Returned" "snd (priority_entry wk0) = snd ?x" for w0 wk0
  proof -
    from linked_worker [OF l that(1)] linked_worker [OF l w] that(3)
    have "trx_lib_id wk0 = trx_lib_id wk" by simp
    with linked_lid [OF l that(1) w that(2)] c show ?thesis by simp
  qed
  have fresh: "snd ?x \<notin> snd ` set Q"
  proof
    assume "snd ?x \<in> snd ` set Q"
    then obtain y where y: "y \<in> set Q" "snd y = snd ?x" by auto
    from linked_queue [OF l y(1)] obtain w0 wk0
      where w0: "W w0 = Some wk0" "priority_entry wk0 = y" "waiting (pc wk0)" by blast
    have "w0 = w" using mine [OF w0(1)] w0 y by (auto simp: waiting_def)
    with w0 w c show False by (simp add: waiting_def)
  qed
  show "\<And>a wa. ?W a = Some wa \<Longrightarrow>
         a \<in> set ws \<and> snd (priority_entry wa) = trx_lib_id wa \<and> wait_info_ptr wa < n \<and>
         map_of S (wait_info_ptr wa) = Some (priority_entry wa)"
    using same linked_worker [OF l] by metis
  show "\<And>e. e \<in> set S \<Longrightarrow> fst e < n" by (rule linked_fresh [OF l])
  show "\<And>p. p \<in> set sp \<Longrightarrow> p < n" by (rule linked_sp [OF l])
  show "\<And>a b wa wb. ?W a = Some wa \<Longrightarrow> ?W b = Some wb \<Longrightarrow> wait_info_ptr wa = wait_info_ptr wb \<Longrightarrow> a = b"
    using same linked_ptr [OF l] by metis
  show "a = b" if "?W a = Some wa" "?W b = Some wb" "pc wa \<noteq> Returned" "pc wb \<noteq> Returned"
          "trx_lib_id wa = trx_lib_id wb" for a b wa wb
  proof -
    from same [OF that(1)] obtain wa' where a: "W a = Some wa'" "trx_lib_id wa = trx_lib_id wa'"
      "a \<noteq> w \<longrightarrow> wa = wa'" "a = w \<longrightarrow> wa' = wk" by blast
    from same [OF that(2)] obtain wb' where b: "W b = Some wb'" "trx_lib_id wb = trx_lib_id wb'"
      "b \<noteq> w \<longrightarrow> wb = wb'" "b = w \<longrightarrow> wb' = wk" by blast
    have "pc wa' \<noteq> Returned" using a that(3) c by (cases "a = w") auto
    moreover have "pc wb' \<noteq> Returned" using b that(4) c by (cases "b = w") auto
    ultimately show ?thesis using linked_lid [OF l a(1) b(1)] a(2) b(2) that(5) by simp
  qed
  show "\<exists>a wa. ?W a = Some wa \<and> priority_entry wa = x \<and> waiting (pc wa)" if x: "x \<in> set Q'" for x
  proof (cases "x = ?x")
    case True
    then show ?thesis by (auto simp: waiting_def)
  next
    case False
    with x sq have xq: "x \<in> set Q" by simp
    from linked_queue [OF l xq] obtain w0 wk0
      where w0: "W w0 = Some wk0" "priority_entry wk0 = x" "waiting (pc wk0)" by blast
    have "w0 \<noteq> w" using w0 w c by (auto simp: waiting_def)
    with w0 show ?thesis by auto
  qed
  show "distinct (map snd Q')"
    using distinct_snd_add [OF m] linked_distinct [OF l] fresh by simp
  show "\<not> R (wait_info_ptr wa) \<and> wait_info_ptr wa \<notin> set sp"
    if "?W a = Some wa" "pc wa = At_push \<or> pc wa = At_insert \<or> (parked (pc wa) \<and> priority_entry wa \<in> set Q')"
    for a wa
  proof (cases "a = w")
    case True
    with that(1) have "wa = wk\<lparr>pc := At_insert\<rparr>" by simp
    with linked_unreleased [OF l w] c show ?thesis by simp
  next
    case False
    with that(1) have a: "W a = Some wa" by simp
    have "priority_entry wa \<noteq> ?x" if p: "parked (pc wa)"
    proof
      assume "priority_entry wa = ?x"
      with mine [OF a] p have "a = w" by (auto simp: parked_def)
      with False show False by simp
    qed
    with that(2) sq have "pc wa = At_push \<or> pc wa = At_insert \<or> (parked (pc wa) \<and> priority_entry wa \<in> set Q)"
      by auto
    with linked_unreleased [OF l a] show ?thesis by blast
  qed
  show "\<not> R (snd e) \<and> snd e \<notin> set sp \<and>
          (\<exists>a wa. ?W a = Some wa \<and> trx_lib_id wa = fst e \<and> wait_info_ptr wa = snd e \<and> parked (pc wa))"
    if e: "e \<in> set M" for e
  proof -
    from linked_map [OF l e] obtain w0 wk0 where nr: "\<not> R (snd e)" "snd e \<notin> set sp"
      and w0: "W w0 = Some wk0" "trx_lib_id wk0 = fst e" "wait_info_ptr wk0 = snd e" "parked (pc wk0)"
      by blast
    have "w0 \<noteq> w" using w0 w c by (auto simp: parked_def)
    with w0 have "\<exists>a wa. ?W a = Some wa \<and> trx_lib_id wa = fst e \<and> wait_info_ptr wa = snd e \<and> parked (pc wa)"
      by auto
    with nr show ?thesis by blast
  qed
qed


lemma linked_insert:
  assumes l: "linked ws W Q M R sp n S" and w: "W w = Some wk" and c: "pc wk = At_insert"
  shows "linked ws (W(w \<mapsto> wk\<lparr>pc := At_wait\<rparr>)) Q (map_assign (trx_lib_id wk) (wait_info_ptr wk) M) R sp n S"
proof (rule linkedI)
  let ?W = "W(w \<mapsto> wk\<lparr>pc := At_wait\<rparr>)"
  have same: "\<And>a wa. ?W a = Some wa \<Longrightarrow>
     \<exists>wa'. W a = Some wa' \<and> trx_lib_id wa = trx_lib_id wa' \<and> priority_entry wa = priority_entry wa' \<and>
            wait_info_ptr wa = wait_info_ptr wa' \<and> (a \<noteq> w \<longrightarrow> wa = wa') \<and> (a = w \<longrightarrow> wa' = wk \<and> pc wa = At_wait)"
    using w by (auto split: if_splits)
  show "\<And>a wa. ?W a = Some wa \<Longrightarrow>
         a \<in> set ws \<and> snd (priority_entry wa) = trx_lib_id wa \<and> wait_info_ptr wa < n \<and>
         map_of S (wait_info_ptr wa) = Some (priority_entry wa)"
    using same linked_worker [OF l] by metis
  show "\<And>e. e \<in> set S \<Longrightarrow> fst e < n" by (rule linked_fresh [OF l])
  show "\<And>p. p \<in> set sp \<Longrightarrow> p < n" by (rule linked_sp [OF l])
  show "\<And>a b wa wb. ?W a = Some wa \<Longrightarrow> ?W b = Some wb \<Longrightarrow> wait_info_ptr wa = wait_info_ptr wb \<Longrightarrow> a = b"
    using same linked_ptr [OF l] by metis
  show "a = b" if "?W a = Some wa" "?W b = Some wb" "pc wa \<noteq> Returned" "pc wb \<noteq> Returned"
          "trx_lib_id wa = trx_lib_id wb" for a b wa wb
  proof -
    from same [OF that(1)] obtain wa' where a: "W a = Some wa'" "trx_lib_id wa = trx_lib_id wa'"
      "a \<noteq> w \<longrightarrow> wa = wa'" "a = w \<longrightarrow> wa' = wk" by blast
    from same [OF that(2)] obtain wb' where b: "W b = Some wb'" "trx_lib_id wb = trx_lib_id wb'"
      "b \<noteq> w \<longrightarrow> wb = wb'" "b = w \<longrightarrow> wb' = wk" by blast
    have "pc wa' \<noteq> Returned" using a that(3) c by (cases "a = w") auto
    moreover have "pc wb' \<noteq> Returned" using b that(4) c by (cases "b = w") auto
    ultimately show ?thesis using linked_lid [OF l a(1) b(1)] a(2) b(2) that(5) by simp
  qed
  show "\<exists>a wa. ?W a = Some wa \<and> priority_entry wa = x \<and> waiting (pc wa)" if x: "x \<in> set Q" for x
  proof -
    from linked_queue [OF l x] obtain w0 wk0
      where w0: "W w0 = Some wk0" "priority_entry wk0 = x" "waiting (pc wk0)" by blast
    show ?thesis
    proof (cases "w0 = w")
      case True
      with w0 w show ?thesis by (auto simp: waiting_def)
    next
      case False
      with w0 show ?thesis by auto
    qed
  qed
  show "distinct (map snd Q)" by (rule linked_distinct [OF l])
  show "\<not> R (wait_info_ptr wa) \<and> wait_info_ptr wa \<notin> set sp"
    if "?W a = Some wa" "pc wa = At_push \<or> pc wa = At_insert \<or> (parked (pc wa) \<and> priority_entry wa \<in> set Q)"
    for a wa
  proof (cases "a = w")
    case True
    with that(1) have "wa = wk\<lparr>pc := At_wait\<rparr>" by simp
    with linked_unreleased [OF l w] c show ?thesis by simp
  next
    case False
    with that linked_unreleased [OF l, of a wa] show ?thesis by auto
  qed
  show "\<not> R (snd e) \<and> snd e \<notin> set sp \<and>
          (\<exists>a wa. ?W a = Some wa \<and> trx_lib_id wa = fst e \<and> wait_info_ptr wa = snd e \<and> parked (pc wa))"
    if e: "e \<in> set (map_assign (trx_lib_id wk) (wait_info_ptr wk) M)" for e
  proof (cases "e = (trx_lib_id wk, wait_info_ptr wk)")
    case True
    with linked_unreleased [OF l w] c show ?thesis by (auto simp: parked_def)
  next
    case False
    with e have em: "e \<in> set M" by (auto simp: map_assign_def map_erase_def)
    from linked_map [OF l em] obtain w0 wk0 where nr: "\<not> R (snd e)" "snd e \<notin> set sp"
      and w0: "W w0 = Some wk0" "trx_lib_id wk0 = fst e" "wait_info_ptr wk0 = snd e" "parked (pc wk0)"
      by blast
    have "w0 \<noteq> w" using w0 w c by (auto simp: parked_def)
    with w0 have "\<exists>a wa. ?W a = Some wa \<and> trx_lib_id wa = fst e \<and> wait_info_ptr wa = snd e \<and> parked (pc wa)"
      by auto
    with nr show ?thesis by blast
  qed
qed

lemma linked_enter:
  assumes l: "linked ws W Q M R sp n S"
    and may: "\<And>w' wk'. w' \<in> set (w # ws) \<Longrightarrow> W w' = Some wk' \<Longrightarrow>
                pc wk' = Returned \<or> (w' \<noteq> w \<and> trx_lib_id wk' \<noteq> lid)"
    and r0: "\<not> R' n" and r1: "\<And>p. p \<noteq> n \<Longrightarrow> R' p = R p"
  shows "linked (w # ws)
           (W(w \<mapsto> \<lparr>trx_lib_id = lid, priority_entry = (prio, lid), wait_info_ptr = n, pc = At_push\<rparr>))
           Q M R' sp (Suc n) (S @ [(n, (prio, lid))])"
proof (rule linkedI)
  let ?new = "\<lparr>trx_lib_id = lid, priority_entry = (prio, lid), wait_info_ptr = n, pc = At_push\<rparr>"
  let ?W = "W(w \<mapsto> ?new)"
  let ?S = "S @ [(n, (prio, lid))]"
  have nfresh: "map_of S n = None"
  proof (rule ccontr)
    assume "map_of S n \<noteq> None"
    then obtain x where "map_of S n = Some x" by auto
    then have "(n, x) \<in> set S" by (rule map_of_SomeD)
    from linked_fresh [OF l this] show False by simp
  qed
  have gone: "pc wk0 = Returned" if "W w = Some wk0" for wk0
    using may [of w wk0] that by auto
  have other: "a \<noteq> w" if "W a = Some wa" "pc wa \<noteq> Returned" for a wa
    using gone that by auto
  have old_ptr: "wait_info_ptr wa < n \<and> R' (wait_info_ptr wa) = R (wait_info_ptr wa)" if "W a = Some wa" for a wa
    using linked_worker [OF l that] r1 by auto
  show "a \<in> set (w # ws) \<and> snd (priority_entry wa) = trx_lib_id wa \<and> wait_info_ptr wa < Suc n \<and>
         map_of ?S (wait_info_ptr wa) = Some (priority_entry wa)" if "?W a = Some wa" for a wa
  proof (cases "a = w")
    case True
    with that have "wa = ?new" by simp
    then show ?thesis using True nfresh by (simp add: map_add_def)
  next
    case False
    with that have a: "W a = Some wa" by simp
    from linked_worker [OF l a] show ?thesis by (simp add: map_add_def)
  qed
  show "fst e < Suc n" if "e \<in> set ?S" for e
    using that linked_fresh [OF l, of e] by auto
  show "\<And>p. p \<in> set sp \<Longrightarrow> p < Suc n" using linked_sp [OF l] by fastforce
  show "a = b" if "?W a = Some wa" "?W b = Some wb" "wait_info_ptr wa = wait_info_ptr wb" for a b wa wb
  proof (cases "a = w"; cases "b = w")
    assume "a = w" "b = w" then show ?thesis by simp
  next
    assume ab: "a = w" "b \<noteq> w"
    with that have "wait_info_ptr wa = n" "W b = Some wb" by auto
    with old_ptr [of b wb] that(3) show ?thesis by simp
  next
    assume ab: "a \<noteq> w" "b = w"
    with that have "wait_info_ptr wb = n" "W a = Some wa" by auto
    with old_ptr [of a wa] that(3) show ?thesis by simp
  next
    assume ab: "a \<noteq> w" "b \<noteq> w"
    with that linked_ptr [OF l, of a wa b wb] show ?thesis by simp
  qed
  show "a = b" if "?W a = Some wa" "?W b = Some wb" "pc wa \<noteq> Returned" "pc wb \<noteq> Returned"
          "trx_lib_id wa = trx_lib_id wb" for a b wa wb
  proof (cases "a = w"; cases "b = w")
    assume "a = w" "b = w" then show ?thesis by simp
  next
    assume ab: "a = w" "b \<noteq> w"
    with that have b: "trx_lib_id wa = lid" "W b = Some wb" by auto
    from linked_worker [OF l b(2)] have "b \<in> set (w # ws)" by simp
    from may [OF this b(2)] that b show ?thesis by simp
  next
    assume ab: "a \<noteq> w" "b = w"
    with that have a: "trx_lib_id wb = lid" "W a = Some wa" by auto
    from linked_worker [OF l a(2)] have "a \<in> set (w # ws)" by simp
    from may [OF this a(2)] that a show ?thesis by simp
  next
    assume ab: "a \<noteq> w" "b \<noteq> w"
    with that linked_lid [OF l, of a wa b wb] show ?thesis by simp
  qed
  show "\<exists>a wa. ?W a = Some wa \<and> priority_entry wa = x \<and> waiting (pc wa)" if x: "x \<in> set Q" for x
  proof -
    from linked_queue [OF l x] obtain w0 wk0
      where w0: "W w0 = Some wk0" "priority_entry wk0 = x" "waiting (pc wk0)" by blast
    have "w0 \<noteq> w" using other [OF w0(1)] w0(3) by (auto simp: waiting_def)
    with w0 show ?thesis by auto
  qed
  show "distinct (map snd Q)" by (rule linked_distinct [OF l])
  show "\<not> R' (wait_info_ptr wa) \<and> wait_info_ptr wa \<notin> set sp"
    if "?W a = Some wa" "pc wa = At_push \<or> pc wa = At_insert \<or> (parked (pc wa) \<and> priority_entry wa \<in> set Q)"
    for a wa
  proof (cases "a = w")
    case True
    with that(1) have "wait_info_ptr wa = n" by auto
    with r0 linked_sp [OF l, of n] show ?thesis by auto
  next
    case False
    with that(1) have a: "W a = Some wa" by simp
    from linked_unreleased [OF l a that(2)] old_ptr [OF a] show ?thesis by simp
  qed
  show "\<not> R' (snd e) \<and> snd e \<notin> set sp \<and>
          (\<exists>a wa. ?W a = Some wa \<and> trx_lib_id wa = fst e \<and> wait_info_ptr wa = snd e \<and> parked (pc wa))"
    if e: "e \<in> set M" for e
  proof -
    from linked_map [OF l e] obtain w0 wk0 where nr: "\<not> R (snd e)" "snd e \<notin> set sp"
      and w0: "W w0 = Some wk0" "trx_lib_id wk0 = fst e" "wait_info_ptr wk0 = snd e" "parked (pc wk0)"
      by blast
    have ne: "w0 \<noteq> w" using other [OF w0(1)] w0(4) by (auto simp: parked_def)
    from old_ptr [OF w0(1)] w0(3) nr have "\<not> R' (snd e)" by simp
    moreover from ne w0
    have "\<exists>a wa. ?W a = Some wa \<and> trx_lib_id wa = fst e \<and> wait_info_ptr wa = snd e \<and> parked (pc wa)"
      by auto
    ultimately show ?thesis using nr by blast
  qed
qed

lemma linked_pop:
  assumes l: "linked ws W Q M R [] n S" and x: "x \<in> set Q" and m: "mset Q = add_mset x (mset Q')"
  shows "map_of M (snd x) = None \<Longrightarrow> linked ws W Q' M R [] n S"
    and "map_of M (snd x) = Some ptr \<Longrightarrow>
           linked ws W Q' (map_erase (snd x) M) R [ptr] n S \<and> map_of S ptr = Some x"
proof -
  from m have sq: "set Q = insert x (set Q')"
    by (metis mset_eq_setD set_mset_add_mset_insert set_mset_mset)
  from distinct_snd_add [OF m] linked_distinct [OF l]
  have d: "distinct (map snd Q')" and nx: "snd x \<notin> snd ` set Q'" by simp_all
  {
    assume "map_of M (snd x) = None"
    show "linked ws W Q' M R [] n S"
      by (rule linked_mono [OF l _ d]) (use sq in auto)
  next
    assume f: "map_of M (snd x) = Some ptr"
    then have em: "(snd x, ptr) \<in> set M" by (rule map_of_SomeD)
    from linked_map [OF l em] obtain wm wkm
      where wm: "W wm = Some wkm" "trx_lib_id wkm = snd x" "wait_info_ptr wkm = ptr" "parked (pc wkm)"
      by auto
    from linked_queue [OF l x] obtain wq wkq
      where wq: "W wq = Some wkq" "priority_entry wkq = x" "waiting (pc wkq)" by blast
    from linked_worker [OF l wq(1)] wq(2) wm(2) have "trx_lib_id wkq = trx_lib_id wkm" by simp
    moreover have "pc wkq \<noteq> Returned" "pc wkm \<noteq> Returned"
      using wq(3) wm(4) by (auto simp: waiting_def parked_def)
    ultimately have "wq = wm" using linked_lid [OF l wq(1) wm(1)] by simp
    with wq wm have ex: "priority_entry wkm = x" by simp
    from linked_worker [OF l wm(1)] wm(3) ex have drawn: "map_of S ptr = Some x" and lt: "ptr < n"
      by auto
    have owner: "a = wm" if "W a = Some wa" "wait_info_ptr wa = ptr" for a wa
      using linked_ptr [OF l that(1) wm(1)] that(2) wm(3) by simp
    have "linked ws W Q' (map_erase (snd x) M) R [ptr] n S"
    proof (rule linkedI)
      show "\<And>w wk. W w = Some wk \<Longrightarrow>
         w \<in> set ws \<and> snd (priority_entry wk) = trx_lib_id wk \<and> wait_info_ptr wk < n \<and>
         map_of S (wait_info_ptr wk) = Some (priority_entry wk)"
        by (rule linked_worker [OF l])
      show "\<And>e. e \<in> set S \<Longrightarrow> fst e < n" by (rule linked_fresh [OF l])
      show "\<And>p. p \<in> set [ptr] \<Longrightarrow> p < n" using lt by simp
      show "\<And>w w' wk wk'. W w = Some wk \<Longrightarrow> W w' = Some wk' \<Longrightarrow> wait_info_ptr wk = wait_info_ptr wk' \<Longrightarrow> w = w'"
        by (rule linked_ptr [OF l])
      show "\<And>w w' wk wk'. W w = Some wk \<Longrightarrow> W w' = Some wk' \<Longrightarrow> pc wk \<noteq> Returned \<Longrightarrow> pc wk' \<noteq> Returned \<Longrightarrow>
          trx_lib_id wk = trx_lib_id wk' \<Longrightarrow> w = w'"
        by (rule linked_lid [OF l])
      show "\<And>y. y \<in> set Q' \<Longrightarrow> \<exists>w wk. W w = Some wk \<and> priority_entry wk = y \<and> waiting (pc wk)"
        using linked_queue [OF l] sq by blast
      show "distinct (map snd Q')" by (rule d)
      show "\<not> R (wait_info_ptr wa) \<and> wait_info_ptr wa \<notin> set [ptr]"
        if a: "W a = Some wa"
          and c: "pc wa = At_push \<or> pc wa = At_insert \<or> (parked (pc wa) \<and> priority_entry wa \<in> set Q')"
        for a wa
      proof -
        from c sq have "pc wa = At_push \<or> pc wa = At_insert \<or> (parked (pc wa) \<and> priority_entry wa \<in> set Q)"
          by auto
        from linked_unreleased [OF l a this] have nr: "\<not> R (wait_info_ptr wa)" by simp
        have "wait_info_ptr wa \<noteq> ptr"
        proof
          assume "wait_info_ptr wa = ptr"
          from owner [OF a this] a wm have "wa = wkm" by simp
          with c wm(4) ex have "x \<in> set Q'" by (auto simp: parked_def)
          with nx show False by auto
        qed
        with nr show ?thesis by simp
      qed
      show "\<not> R (snd e) \<and> snd e \<notin> set [ptr] \<and>
          (\<exists>w wk. W w = Some wk \<and> trx_lib_id wk = fst e \<and> wait_info_ptr wk = snd e \<and> parked (pc wk))"
        if e: "e \<in> set (map_erase (snd x) M)" for e
      proof -
        from e have em': "e \<in> set M" and ne: "fst e \<noteq> snd x" by (auto simp: map_erase_def)
        from linked_map [OF l em'] obtain w0 wk0 where nr: "\<not> R (snd e)"
          and w0: "W w0 = Some wk0" "trx_lib_id wk0 = fst e" "wait_info_ptr wk0 = snd e" "parked (pc wk0)"
          by blast
        have "snd e \<noteq> ptr"
        proof
          assume "snd e = ptr"
          with owner [OF w0(1)] w0(3) have "w0 = wm" by simp
          with w0 wm ne show False by simp
        qed
        with nr w0 show ?thesis by auto
      qed
    qed
    with drawn show "linked ws W Q' (map_erase (snd x) M) R [ptr] n S \<and> map_of S ptr = Some x" by simp
  }
qed

lemma linked_signal:
  assumes l: "linked ws W Q M R [ptr] n S" and r: "\<And>p. R' p \<Longrightarrow> R p \<or> p = ptr"
  shows "linked ws W Q M R' [] n S"
proof (rule linkedI)
  show "\<And>w wk. W w = Some wk \<Longrightarrow>
         w \<in> set ws \<and> snd (priority_entry wk) = trx_lib_id wk \<and> wait_info_ptr wk < n \<and>
         map_of S (wait_info_ptr wk) = Some (priority_entry wk)"
    by (rule linked_worker [OF l])
  show "\<And>e. e \<in> set S \<Longrightarrow> fst e < n" by (rule linked_fresh [OF l])
  show "\<And>p. p \<in> set [] \<Longrightarrow> p < n" by simp
  show "\<And>w w' wk wk'. W w = Some wk \<Longrightarrow> W w' = Some wk' \<Longrightarrow> wait_info_ptr wk = wait_info_ptr wk' \<Longrightarrow> w = w'"
    by (rule linked_ptr [OF l])
  show "\<And>w w' wk wk'. W w = Some wk \<Longrightarrow> W w' = Some wk' \<Longrightarrow> pc wk \<noteq> Returned \<Longrightarrow> pc wk' \<noteq> Returned \<Longrightarrow>
          trx_lib_id wk = trx_lib_id wk' \<Longrightarrow> w = w'"
    by (rule linked_lid [OF l])
  show "\<And>x. x \<in> set Q \<Longrightarrow> \<exists>w wk. W w = Some wk \<and> priority_entry wk = x \<and> waiting (pc wk)"
    by (rule linked_queue [OF l])
  show "distinct (map snd Q)" by (rule linked_distinct [OF l])
  show "\<And>w wk. W w = Some wk \<Longrightarrow>
          pc wk = At_push \<or> pc wk = At_insert \<or> (parked (pc wk) \<and> priority_entry wk \<in> set Q) \<Longrightarrow>
          \<not> R' (wait_info_ptr wk) \<and> wait_info_ptr wk \<notin> set []"
    using linked_unreleased [OF l] r by fastforce
  show "\<And>e. e \<in> set M \<Longrightarrow>
          \<not> R' (snd e) \<and> snd e \<notin> set [] \<and>
          (\<exists>w wk. W w = Some wk \<and> trx_lib_id wk = fst e \<and> wait_info_ptr wk = snd e \<and> parked (pc wk))"
    using linked_map [OF l] r by fastforce
qed

section \<open>The steps keep the invariant\<close>

lemmas view_defs = queued_def local_batch_def signal_pending_def ready_def

lemma link_inv_mono:
  assumes inv: "link_inv ws s S"
    and "shutdown_caller s' = None" and "is_heap (length (scheduler_queue s')) (scheduler_queue s')"
    and "workers s' = workers s" and "set (queued s') \<subseteq> set (queued s)" and "distinct (map snd (queued s'))"
    and "trx_wait_map s' = trx_wait_map s" and "\<And>p. ready s' p \<Longrightarrow> ready s p"
    and "signal_pending s' = signal_pending s" and "next_wait_addr s' = next_wait_addr s"
  shows "link_inv ws s' S"
proof -
  from inv have l: "linked ws (workers s) (queued s) (trx_wait_map s) (ready s) (signal_pending s) (next_wait_addr s) S"
    by (simp add: link_inv_def)
  from linked_mono [OF l assms(5,6,8)] assms(2,3,4,7,9,10) show ?thesis
    by (simp add: link_inv_def)
qed

lemma link_inv_same:
  assumes inv: "link_inv ws s S"
    and "shutdown_caller s' = shutdown_caller s" and "scheduler_queue s' = scheduler_queue s"
    and "workers s' = workers s" and "queued s' = queued s"
    and "trx_wait_map s' = trx_wait_map s" and "\<And>p. ready s' p \<Longrightarrow> ready s p"
    and "signal_pending s' = signal_pending s" and "next_wait_addr s' = next_wait_addr s"
  shows "link_inv ws s' S"
proof (rule link_inv_mono [OF inv])
  from inv have c: "shutdown_caller s = None" "is_heap (length (scheduler_queue s)) (scheduler_queue s)"
    and l: "linked ws (workers s) (queued s) (trx_wait_map s) (ready s) (signal_pending s) (next_wait_addr s) S"
    by (simp_all add: link_inv_def)
  show "shutdown_caller s' = None" using c assms(2) by simp
  show "is_heap (length (scheduler_queue s')) (scheduler_queue s')" using c assms(3) by simp
  show "distinct (map snd (queued s'))" using linked_distinct [OF l] assms(5) by simp
  show "set (queued s') \<subseteq> set (queued s)" using assms(5) by simp
qed (use assms in simp_all)

lemma link_inv_pc:
  assumes inv: "link_inv ws s S" and w: "workers s w = Some wk"
    and c: "(parked (pc wk) \<and> parked p') \<or>
            (parked (pc wk) \<and> ready s (wait_info_ptr wk) \<and> (p' = At_delete \<or> p' = Returned)) \<or>
            (pc wk = At_delete \<and> (p' = Returned \<or> p' = At_delete))"
    and "workers s' = (workers s)(w \<mapsto> wk\<lparr>pc := p'\<rparr>)"
    and "shutdown_caller s' = shutdown_caller s" and "scheduler_queue s' = scheduler_queue s"
    and "queued s' = queued s"
    and "trx_wait_map s' = trx_wait_map s" and "\<And>p. ready s' p \<Longrightarrow> ready s p"
    and "signal_pending s' = signal_pending s" and "next_wait_addr s' = next_wait_addr s"
  shows "link_inv ws s' S"
proof -
  from inv have h: "shutdown_caller s = None" "is_heap (length (scheduler_queue s)) (scheduler_queue s)"
    and l: "linked ws (workers s) (queued s) (trx_wait_map s) (ready s) (signal_pending s) (next_wait_addr s) S"
    by (simp_all add: link_inv_def)
  from linked_pc [OF l w c]
  have "linked ws ((workers s)(w \<mapsto> wk\<lparr>pc := p'\<rparr>)) (queued s) (trx_wait_map s) (ready s) (signal_pending s)
          (next_wait_addr s) S" .
  from linked_mono [OF this subset_refl linked_distinct [OF l] assms(9)] h assms(4-8,10,11)
  show ?thesis by (simp add: link_inv_def)
qed

lemma ready_set_waiter:
  "ready (set_waiter ptr wi s) p = (if p = ptr then is_ready wi else ready s p)"
  by (simp add: ready_def set_waiter_def)

lemma link_request_wait:
  assumes inv: "link_inv ws s S" and w: "workers s w = Some wk" and p: "parked (pc wk)"
    and wo: "woken = At_delete \<or> woken = Returned" and st: "request_wait woken w wk s = Inr s'"
  shows "link_inv ws s' S"
proof -
  let ?ptr = "wait_info_ptr wk"
  from st obtain wi where wi: "wait_objects s ?ptr = Some wi"
    by (auto simp: request_wait_def split: option.splits)
  have r: "ready s ?ptr = is_ready wi" by (simp add: ready_def wi)
  have test: "link_inv ws (request_test woken w wk wi s) S" if "pc wk = At_wait \<or> pc wk = Blocked"
  proof (cases "is_ready wi")
    case True
    show ?thesis
      by (rule link_inv_pc [OF inv w, of woken])
         (use True p wo r in \<open>auto simp: request_test_def set_worker_def view_defs\<close>)
  next
    case False
    show ?thesis
      by (rule link_inv_pc [OF inv w, of At_block])
         (use False p r wi in \<open>auto simp: request_test_def set_worker_def set_waiter_def view_defs parked_def
                                     split: if_splits\<close>)
  qed
  from p consider "pc wk = At_wait" | "pc wk = At_block" | "pc wk = Blocked" by (auto simp: parked_def)
  then show ?thesis
  proof cases
    case 1
    with st wi test show ?thesis by (simp add: request_wait_def)
  next
    case 2
    with st wi have s': "s' = set_worker w (wk\<lparr>pc := Blocked\<rparr>) (set_waiter ?ptr (wi\<lparr>mtx := False, cv := True\<rparr>) s)"
      by (simp add: request_wait_def)
    show ?thesis
      by (rule link_inv_pc [OF inv w, of Blocked])
         (use 2 wi in \<open>auto simp: s' set_worker_def set_waiter_def view_defs parked_def split: if_splits\<close>)
  next
    case 3
    show ?thesis
    proof (cases "cv wi")
      case True
      with 3 st wi inv show ?thesis by (simp add: request_wait_def)
    next
      case False
      with 3 st wi test show ?thesis by (simp add: request_wait_def)
    qed
  qed
qed


lemma link_parts:
  assumes "link_inv ws s S"
  shows "shutdown_caller s = None" and "is_heap (length (scheduler_queue s)) (scheduler_queue s)"
    and "linked ws (workers s) (queued s) (trx_wait_map s) (ready s) (signal_pending s) (next_wait_addr s) S"
    and "\<not> global_mutex_held s"
  using assms by (simp_all add: link_inv_def global_mutex_held_def)

lemma link_push:
  assumes inv: "link_inv ws s S" and w: "workers s w = Some wk" and c: "pc wk = At_push"
  shows "link_inv ws (request_push w wk s) S"
proof -
  note h = link_parts [OF inv]
  let ?s' = "request_push w wk s"
  have m: "mset (queued ?s') = add_mset (priority_entry wk) (mset (queued s))"
    by (simp add: request_push_def set_worker_def view_defs)
  have v: "workers ?s' = (workers s)(w \<mapsto> wk\<lparr>pc := At_insert\<rparr>)" "trx_wait_map ?s' = trx_wait_map s"
    "ready ?s' = ready s" "signal_pending ?s' = signal_pending s" "next_wait_addr ?s' = next_wait_addr s"
    "shutdown_caller ?s' = shutdown_caller s" "scheduler_queue ?s' = scheduler_queue s"
    by (simp_all add: request_push_def set_worker_def view_defs fun_eq_iff)
  from linked_push [OF h(3) w c m] h(1,2) show ?thesis
    unfolding link_inv_def v by simp
qed

lemma link_insert:
  assumes inv: "link_inv ws s S" and w: "workers s w = Some wk" and c: "pc wk = At_insert"
    and s': "workers s' = (workers s)(w \<mapsto> wk\<lparr>pc := At_wait\<rparr>)"
      "trx_wait_map s' = map_assign (trx_lib_id wk) (wait_info_ptr wk) (trx_wait_map s)"
      "shutdown_caller s' = shutdown_caller s" "scheduler_queue s' = scheduler_queue s"
      "queued s' = queued s" "\<And>p. ready s' p \<Longrightarrow> ready s p"
      "signal_pending s' = signal_pending s" "next_wait_addr s' = next_wait_addr s"
  shows "link_inv ws s' S"
proof -
  note h = link_parts [OF inv]
  from linked_insert [OF h(3) w c]
  have "linked ws ((workers s)(w \<mapsto> wk\<lparr>pc := At_wait\<rparr>)) (queued s)
          (map_assign (trx_lib_id wk) (wait_info_ptr wk) (trx_wait_map s)) (ready s) (signal_pending s)
          (next_wait_addr s) S" .
  from linked_mono [OF this subset_refl linked_distinct [OF h(3)] s'(6)] h(1,2) s'(1-5,7,8)
  show ?thesis by (simp add: link_inv_def)
qed

lemma link_request_step:
  assumes inv: "link_inv ws s S" and st: "request_step w s = Inr s'"
  shows "link_inv ws s' S"
proof (cases "workers s w")
  case None
  with st inv show ?thesis by (simp add: request_step_def)
next
  case (Some wk)
  note h = link_parts [OF inv]
  show ?thesis
  proof (cases "pc wk")
    case At_push
    with st Some link_push [OF inv Some] show ?thesis by (simp add: request_step_def)
  next
    case At_insert
    with st Some h(4)
    have s': "s' = set_worker w (wk\<lparr>pc := At_wait\<rparr>)
                     (s\<lparr>trx_wait_map := map_assign (trx_lib_id wk) (wait_info_ptr wk) (trx_wait_map s)\<rparr>)"
      by (simp add: request_step_def)
    show ?thesis
      by (rule link_insert [OF inv Some At_insert]) (simp_all add: s' set_worker_def view_defs)
  next
    case At_delete
    with st Some
    have s': "s' = set_worker w (wk\<lparr>pc := Returned\<rparr>)
                     (s\<lparr>wait_objects := (wait_objects s)(wait_info_ptr wk := None)\<rparr>)"
      by (simp add: request_step_def)
    show ?thesis
      by (rule link_inv_pc [OF inv Some, of Returned])
         (use At_delete in \<open>auto simp: s' set_worker_def view_defs split: if_splits\<close>)
  next
    case Returned
    with st Some inv show ?thesis by (simp add: request_step_def)
  next
    case At_wait
    with st Some have "request_wait At_delete w wk s = Inr s'" by (simp add: request_step_def)
    from link_request_wait [OF inv Some _ _ this] At_wait show ?thesis by (simp add: parked_def)
  next
    case At_block
    with st Some have "request_wait At_delete w wk s = Inr s'" by (simp add: request_step_def)
    from link_request_wait [OF inv Some _ _ this] At_block show ?thesis by (simp add: parked_def)
  next
    case Blocked
    with st Some have "request_wait At_delete w wk s = Inr s'" by (simp add: request_step_def)
    from link_request_wait [OF inv Some _ _ this] Blocked show ?thesis by (simp add: parked_def)
  qed
qed

lemma link_request_step_owning:
  assumes inv: "link_inv ws s S" and st: "request_step_owning w s = Inr s'"
  shows "link_inv ws s' S"
proof (cases "workers s w")
  case None
  with st inv show ?thesis by (simp add: request_step_owning_def)
next
  case (Some wk)
  note h = link_parts [OF inv]
  show ?thesis
  proof (cases "pc wk")
    case At_push
    with st Some link_push [OF inv Some] show ?thesis by (simp add: request_step_owning_def)
  next
    case At_insert
    define s1 where "s1 = destroy_waiter_of (trx_lib_id wk) s"
    from At_insert st Some h(4)
    have s': "s' = set_worker w (wk\<lparr>pc := At_wait\<rparr>)
                     (s1\<lparr>trx_wait_map := map_assign (trx_lib_id wk) (wait_info_ptr wk) (trx_wait_map s1)\<rparr>)"
      by (simp add: request_step_owning_def Let_def s1_def)
    have s1: "workers s1 = workers s" "trx_wait_map s1 = trx_wait_map s" "shutdown_caller s1 = shutdown_caller s"
      "scheduler_queue s1 = scheduler_queue s" "pending_requests s1 = pending_requests s"
      "scheduler_thread s1 = scheduler_thread s" "next_wait_addr s1 = next_wait_addr s"
      "\<And>p. ready s1 p \<Longrightarrow> ready s p"
      by (auto simp: s1_def destroy_waiter_of_def ready_def split: option.splits if_splits)
    show ?thesis
      by (rule link_insert [OF inv Some At_insert]) (use s1 in \<open>simp_all add: s' set_worker_def view_defs\<close>)
  next
    case At_delete
    with st Some inv show ?thesis by (simp add: request_step_owning_def)
  next
    case Returned
    with st Some inv show ?thesis by (simp add: request_step_owning_def)
  next
    case At_wait
    with st Some have "request_wait Returned w wk s = Inr s'" by (simp add: request_step_owning_def)
    from link_request_wait [OF inv Some _ _ this] At_wait show ?thesis by (simp add: parked_def)
  next
    case At_block
    with st Some have "request_wait Returned w wk s = Inr s'" by (simp add: request_step_owning_def)
    from link_request_wait [OF inv Some _ _ this] At_block show ?thesis by (simp add: parked_def)
  next
    case Blocked
    with st Some have "request_wait Returned w wk s = Inr s'" by (simp add: request_step_owning_def)
    from link_request_wait [OF inv Some _ _ this] Blocked show ?thesis by (simp add: parked_def)
  qed
qed

lemma link_enter:
  assumes inv: "link_inv ws s S" and may: "may_enter ws w lid s"
  shows "link_inv (w # ws) (request_enter w lid prio s) (S @ [(next_wait_addr s, (prio, lid))])"
proof -
  note h = link_parts [OF inv]
  let ?s' = "request_enter w lid prio s"
  have m: "pc wk' = Returned \<or> (w' \<noteq> w \<and> trx_lib_id wk' \<noteq> lid)"
    if "w' \<in> set (w # ws)" "workers s w' = Some wk'" for w' wk'
    using may that unfolding may_enter_def list_all_iff by (auto split: option.splits)
  have r0: "\<not> ready ?s' (next_wait_addr s)" by (simp add: request_enter_def set_worker_def ready_def)
  have r1: "\<And>p. p \<noteq> next_wait_addr s \<Longrightarrow> ready ?s' p = ready s p"
    by (simp add: request_enter_def set_worker_def ready_def)
  have v: "workers ?s' = (workers s)(w \<mapsto> \<lparr>trx_lib_id = lid, priority_entry = (prio, lid),
                                           wait_info_ptr = next_wait_addr s, pc = At_push\<rparr>)"
    "trx_wait_map ?s' = trx_wait_map s" "queued ?s' = queued s"
    "signal_pending ?s' = signal_pending s" "next_wait_addr ?s' = Suc (next_wait_addr s)"
    "shutdown_caller ?s' = shutdown_caller s" "scheduler_queue ?s' = scheduler_queue s"
    by (simp_all add: request_enter_def set_worker_def queued_def local_batch_def signal_pending_def)
  from linked_enter [OF h(3) m r0 r1, of prio] h(1,2) show ?thesis
    unfolding link_inv_def v by simp
qed

lemma link_init:
  assumes inv: "link_inv ws s S" and st: "scheduler_init env s = Inr s'"
  shows "link_inv ws s' S"
proof (cases "scheduler_running s")
  case True
  with st inv show ?thesis by (simp add: scheduler_init_noop)
next
  case False
  show ?thesis
  proof (cases "scheduler_thread s")
    case None
    from scheduler_init_fresh [OF False None, of env] st
    show ?thesis by (intro link_inv_same [OF inv]) (auto simp: view_defs None)
  next
    case (Some p)
    with False st show ?thesis
      by (auto simp: scheduler_init_def Let_def init_rng_def split: option.splits sum.splits if_splits)
  qed
qed

lemma link_shutdown_finish:
  assumes inv: "link_inv ws s S"
  shows "shutdown_finish s = Inr s" and "shutdown_finish_owning s = Inr s"
  using link_parts(1) [OF inv] by (simp_all add: shutdown_finish_def shutdown_finish_owning_def)

lemma link_sched_loop:
  assumes inv: "link_inv ws s S" and t: "scheduler_thread s = Some At_loop"
  shows "link_inv ws (sched_loop s) S"
  by (rule link_inv_same [OF inv]) (simp_all add: sched_loop_def set_thread_def view_defs t)

lemma link_sched_collect:
  assumes inv: "link_inv ws s S" and t: "scheduler_thread s = Some At_collect"
  shows "link_inv ws (sched_collect s) S"
  by (cases "pending_requests s = []")
     (rule link_inv_same [OF inv]; simp add: sched_collect_def set_thread_def view_defs t)+

lemma link_sched_move:
  assumes inv: "link_inv ws s S" and t: "scheduler_thread s = Some (At_move b)"
  shows "link_inv ws (sched_move b s) S"
proof (rule link_inv_mono [OF inv])
  note h = link_parts [OF inv]
  let ?s' = "sched_move b s"
  let ?q' = "foldl (\<lambda>q x. pq_push x q) (scheduler_queue s) b"
  from foldl_pq_push [OF h(2), of b]
  have hp: "is_heap (length ?q') ?q'" and m: "mset ?q' = mset (scheduler_queue s) + mset b" by simp_all
  have q: "scheduler_queue ?s' = ?q'" by (simp add: sched_move_def set_thread_def)
  have mq: "mset (queued ?s') = mset (queued s)"
    by (simp add: queued_def local_batch_def t sched_move_def set_thread_def m)
  show "shutdown_caller ?s' = None" using h(1) by (simp add: sched_move_def set_thread_def)
  show "is_heap (length (scheduler_queue ?s')) (scheduler_queue ?s')" using hp q by simp
  show "workers ?s' = workers s" by (simp add: sched_move_def set_thread_def)
  show "set (queued ?s') \<subseteq> set (queued s)" using mq by (metis mset_eq_setD subset_refl)
  show "distinct (map snd (queued ?s'))"
    using distinct_snd_mset [OF mq] linked_distinct [OF h(3)] by simp
  show "trx_wait_map ?s' = trx_wait_map s" by (simp add: sched_move_def set_thread_def)
  show "\<And>p. ready ?s' p \<Longrightarrow> ready s p" by (simp add: sched_move_def set_thread_def ready_def)
  show "signal_pending ?s' = signal_pending s" by (simp add: sched_move_def set_thread_def signal_pending_def t)
  show "next_wait_addr ?s' = next_wait_addr s" by (simp add: sched_move_def set_thread_def)
qed

text \<open>The pop, in both versions: \<open>s'\<close> is the state after it.\<close>

lemma link_pop:
  assumes inv: "link_inv ws s S" and t: "scheduler_thread s = Some At_drain"
    and ne: "scheduler_queue s \<noteq> []"
    and q': "scheduler_queue s' = pq_pop (scheduler_queue s)"
    and same: "workers s' = workers s" "pending_requests s' = pending_requests s"
      "wait_objects s' = wait_objects s" "next_wait_addr s' = next_wait_addr s"
      "shutdown_caller s' = shutdown_caller s"
    and f: "case map_find (snd (pq_top (scheduler_queue s))) (trx_wait_map s) of
              None \<Rightarrow> scheduler_thread s' = Some At_loop \<and> trx_wait_map s' = trx_wait_map s
            | Some ptr \<Rightarrow> scheduler_thread s' = Some (At_signal ptr) \<and>
                 trx_wait_map s' = map_erase (snd (pq_top (scheduler_queue s))) (trx_wait_map s)"
  shows "link_inv ws s' S \<and>
         (\<forall>ptr. map_find (snd (pq_top (scheduler_queue s))) (trx_wait_map s) = Some ptr \<longrightarrow>
                map_of S ptr = Some (pq_top (scheduler_queue s)))"
proof -
  note h = link_parts [OF inv]
  let ?q = "scheduler_queue s" and ?x = "pq_top (scheduler_queue s)"
  from pq_pop_props [OF h(2) ne]
  have hp: "is_heap (length (pq_pop ?q)) (pq_pop ?q)" and m: "mset ?q = add_mset ?x (mset (pq_pop ?q))"
    by blast+
  have lb: "local_batch s = []" "signal_pending s = []" by (simp_all add: view_defs t)
  have lb': "local_batch s' = []"
    using f by (auto simp: local_batch_def split: option.splits)
  have mq: "mset (queued s) = add_mset ?x (mset (queued s'))"
    by (simp add: queued_def lb lb' same q' m)
  then have xq: "?x \<in> set (queued s)" by (metis mset_eq_setD set_mset_add_mset_insert set_mset_mset insertI1)
  have r: "ready s' = ready s" by (simp add: ready_def fun_eq_iff same)
  note l = h(3) [unfolded lb]
  show ?thesis
  proof (cases "map_find (snd ?x) (trx_wait_map s)")
    case None
    with f have v: "signal_pending s' = []" "trx_wait_map s' = trx_wait_map s"
      by (simp_all add: signal_pending_def)
    from None have "map_of (trx_wait_map s) (snd ?x) = None" by (simp add: map_find_def)
    from linked_pop(1) [OF l xq mq this] h(1) hp None show ?thesis
      by (simp add: link_inv_def v r same q')
  next
    case (Some ptr)
    with f have v: "signal_pending s' = [ptr]" "trx_wait_map s' = map_erase (snd ?x) (trx_wait_map s)"
      by (simp_all add: signal_pending_def)
    from Some have "map_of (trx_wait_map s) (snd ?x) = Some ptr" by (simp add: map_find_def)
    from linked_pop(2) [OF l xq mq this] h(1) hp Some show ?thesis
      by (simp add: link_inv_def v r same q')
  qed
qed

lemma link_empty_queue:
  assumes inv: "link_inv ws s S" and t: "scheduler_thread s = Some At_drain"
  shows "link_inv ws (set_thread At_loop (s\<lparr>g_epoch_state := COLLECTING\<rparr>)) S"
  by (rule link_inv_same [OF inv]) (simp_all add: set_thread_def view_defs t)

lemma link_signal:
  assumes inv: "link_inv ws s S" and t: "scheduler_thread s = Some (At_signal ptr)"
    and st: "sched_signal ptr s = Inr s'"
  shows "link_inv ws s' S"
proof -
  note h = link_parts [OF inv]
  from st obtain wi where wi: "wait_objects s ptr = Some wi"
    by (auto simp: sched_signal_def split: option.splits)
  show ?thesis
  proof (cases "mtx wi")
    case True
    with st wi inv show ?thesis by (simp add: sched_signal_def)
  next
    case False
    with st wi have s': "s' = set_thread (At_notify ptr) (set_waiter ptr (wi\<lparr>is_ready := True\<rparr>) s)"
      by (simp add: sched_signal_def)
    have sp: "signal_pending s = [ptr]" by (simp add: signal_pending_def t)
    have r: "\<And>p. ready s' p \<Longrightarrow> ready s p \<or> p = ptr"
      by (auto simp: s' set_thread_def set_waiter_def ready_def split: if_splits)
    have v: "workers s' = workers s" "queued s' = queued s" "trx_wait_map s' = trx_wait_map s"
      "signal_pending s' = []" "next_wait_addr s' = next_wait_addr s"
      "shutdown_caller s' = shutdown_caller s" "scheduler_queue s' = scheduler_queue s"
      by (simp_all add: s' set_thread_def set_waiter_def queued_def local_batch_def signal_pending_def t)
    from linked_signal [OF h(3) [unfolded sp] r] h(1,2) show ?thesis
      unfolding link_inv_def v by simp
  qed
qed

lemma link_notify:
  assumes inv: "link_inv ws s S" and t: "scheduler_thread s = Some (At_notify ptr)"
    and nx: "next = At_loop \<or> next = At_scope_exit ptr"
    and st: "sched_notify ptr next s = Inr s'"
  shows "link_inv ws s' S"
proof -
  from st obtain wi where wi: "wait_objects s ptr = Some wi"
    and s': "s' = set_thread next (set_waiter ptr (wi\<lparr>cv := False\<rparr>) s)"
    by (auto simp: sched_notify_def split: option.splits)
  show ?thesis
    by (rule link_inv_same [OF inv])
       (use nx wi in \<open>auto simp: s' set_thread_def set_waiter_def view_defs t split: if_splits\<close>)
qed

lemma link_scope_exit:
  assumes inv: "link_inv ws s S" and t: "scheduler_thread s = Some (At_scope_exit ptr)"
  shows "link_inv ws (set_thread At_loop (s\<lparr>wait_objects := (wait_objects s)(ptr := None)\<rparr>)) S"
  by (rule link_inv_same [OF inv]) (auto simp: set_thread_def view_defs t split: if_splits)

lemma observe_Sched_submissions: "submissions (observe Sched s) = []"
  by (simp add: observe_def split: option.splits sched_pc.splits)

lemma found_pops_drain:
  "scheduler_thread s = Some At_drain \<Longrightarrow>
   found_pops (observe Sched s) =
     (if global_mutex_held s \<or> scheduler_queue s = [] then []
      else (case map_find (snd (pq_top (scheduler_queue s))) (trx_wait_map s) of
              None \<Rightarrow> []
            | Some ptr \<Rightarrow> [(pq_top (scheduler_queue s), ptr)]))"
  by (simp add: observe_def split: option.splits)

lemma found_pops_other:
  "scheduler_thread s \<noteq> Some At_drain \<Longrightarrow> found_pops (observe Sched s) = []"
  by (auto simp: observe_def split: option.splits sched_pc.splits)

lemma link_sched_step:
  assumes inv: "link_inv ws s S" and st: "sched_step s = Inr s'"
  shows "link_inv ws s' S \<and> (\<forall>f \<in> set (found_pops (observe Sched s)). map_of S (snd f) = Some (fst f))"
proof (cases "scheduler_thread s")
  case None
  with st inv show ?thesis by (simp add: sched_step_def found_pops_other)
next
  case (Some p)
  note h = link_parts [OF inv]
  show ?thesis
  proof (cases p)
    case At_loop
    with st Some link_sched_loop [OF inv] show ?thesis by (simp add: sched_step_def found_pops_other)
  next
    case At_collect
    with st Some link_sched_collect [OF inv] show ?thesis by (simp add: sched_step_def found_pops_other)
  next
    case (At_move b)
    with st Some h(4) link_sched_move [OF inv, of b] show ?thesis
      by (simp add: sched_step_def found_pops_other)
  next
    case At_drain
    with Some have t: "scheduler_thread s = Some At_drain" by simp
    from st t h(4) have sd: "sched_drain s = Inr s'" by (simp add: sched_step_def)
    show ?thesis
    proof (cases "scheduler_queue s = []")
      case True
      with sd link_empty_queue [OF inv t] show ?thesis
        by (simp add: sched_drain_def found_pops_drain [OF t])
    next
      case False
      from sd False obtain ptr where
        fnd: "map_find (snd (pq_top (scheduler_queue s))) (trx_wait_map s) = Some ptr"
        and s': "s' = set_thread (At_signal ptr)
                        (s\<lparr>scheduler_queue := pq_pop (scheduler_queue s),
                           trx_wait_map := map_erase (snd (pq_top (scheduler_queue s))) (trx_wait_map s)\<rparr>)"
        by (auto simp: sched_drain_def Let_def split: option.splits)
      have "link_inv ws s' S \<and>
         (\<forall>ptr. map_find (snd (pq_top (scheduler_queue s))) (trx_wait_map s) = Some ptr \<longrightarrow>
                map_of S ptr = Some (pq_top (scheduler_queue s)))"
        by (rule link_pop [OF inv t False]) (simp_all add: s' set_thread_def fnd)
      with fnd False h(4) show ?thesis by (simp add: found_pops_drain [OF t])
    qed
  next
    case (At_signal ptr)
    with st Some link_signal [OF inv, of ptr s'] show ?thesis by (simp add: sched_step_def found_pops_other)
  next
    case (At_notify ptr)
    with st Some link_notify [OF inv, of ptr At_loop s'] show ?thesis
      by (simp add: sched_step_def found_pops_other)
  next
    case (At_scope_exit ptr)
    with st Some inv show ?thesis by (simp add: sched_step_def found_pops_other)
  next
    case Exited
    with st Some inv show ?thesis by (simp add: sched_step_def found_pops_other)
  qed
qed

lemma link_sched_step_owning:
  assumes inv: "link_inv ws s S" and st: "sched_step_owning s = Inr s'"
  shows "link_inv ws s' S \<and> (\<forall>f \<in> set (found_pops (observe Sched s)). map_of S (snd f) = Some (fst f))"
proof (cases "scheduler_thread s")
  case None
  with st inv show ?thesis by (simp add: sched_step_owning_def found_pops_other)
next
  case (Some p)
  note h = link_parts [OF inv]
  show ?thesis
  proof (cases p)
    case At_loop
    with st Some link_sched_loop [OF inv] show ?thesis by (simp add: sched_step_owning_def found_pops_other)
  next
    case At_collect
    with st Some link_sched_collect [OF inv] show ?thesis by (simp add: sched_step_owning_def found_pops_other)
  next
    case (At_move b)
    with st Some h(4) link_sched_move [OF inv, of b] show ?thesis
      by (simp add: sched_step_owning_def found_pops_other)
  next
    case At_drain
    with Some have t: "scheduler_thread s = Some At_drain" by simp
    from st t h(4) have s': "s' = sched_drain_owning s" by (simp add: sched_step_owning_def)
    show ?thesis
    proof (cases "scheduler_queue s = []")
      case True
      with s' link_empty_queue [OF inv t] show ?thesis
        by (simp add: sched_drain_owning_def found_pops_drain [OF t])
    next
      case False
      have "link_inv ws s' S \<and>
         (\<forall>ptr. map_find (snd (pq_top (scheduler_queue s))) (trx_wait_map s) = Some ptr \<longrightarrow>
                map_of S ptr = Some (pq_top (scheduler_queue s)))"
        by (rule link_pop [OF inv t False])
           (simp_all add: s' sched_drain_owning_def Let_def False set_thread_def split: option.splits)
      with False h(4) show ?thesis by (simp add: found_pops_drain [OF t] split: option.splits)
    qed
  next
    case (At_signal ptr)
    with st Some link_signal [OF inv, of ptr s'] show ?thesis
      by (simp add: sched_step_owning_def found_pops_other)
  next
    case (At_notify ptr)
    with st Some link_notify [OF inv, of ptr "At_scope_exit ptr" s'] show ?thesis
      by (simp add: sched_step_owning_def found_pops_other)
  next
    case (At_scope_exit ptr)
    with st Some link_scope_exit [OF inv, of ptr] show ?thesis
      by (simp add: sched_step_owning_def found_pops_other)
  next
    case Exited
    with st Some inv show ?thesis by (simp add: sched_step_owning_def found_pops_other)
  qed
qed

section \<open>Executions\<close>

lemma submissions_append: "submissions (es @ fs) = submissions es @ submissions fs"
  by (induction es rule: submissions.induct) simp_all

lemma found_pops_append: "found_pops (es @ fs) = found_pops es @ found_pops fs"
  by (induction es rule: found_pops.induct) simp_all

lemma releases_append: "releases (es @ fs) = releases es @ releases fs"
  by (induction es rule: releases.induct) simp_all

lemma observe_quiet:
  "a \<noteq> Sched \<Longrightarrow> found_pops (observe a s) = [] \<and> releases (observe a s) = [] \<and> pops (observe a s) = []"
  "\<forall>w lid prio. a \<noteq> Enter w lid prio \<Longrightarrow> submissions (observe a s) = []"
  by (cases a; simp add: observe_def observe_Sched_submissions [unfolded observe_def, simplified])+

lemma link_step:
  assumes inv: "link_inv ws s S" and ok: "permitted ws a s" and st: "step a s = Inr s'"
  shows "link_inv (entered a ws) s' (S @ submissions (observe a s)) \<and>
         (\<forall>f \<in> set (found_pops (observe a s)). map_of S (snd f) = Some (fst f))"
proof (cases a)
  case (Init env)
  with st link_init [OF inv, of env s'] show ?thesis by (simp add: observe_quiet entered_def)
next
  case (Enter w lid prio)
  with ok have "may_enter ws w lid s" by (simp add: permitted_def)
  from link_enter [OF inv this, of prio] st Enter show ?thesis
    by (simp add: entered_def observe_def)
next
  case (Worker w)
  with st link_request_step [OF inv, of w s'] show ?thesis by (simp add: observe_quiet entered_def)
next
  case Sched
  with st link_sched_step [OF inv, of s'] show ?thesis
    by (simp add: observe_Sched_submissions entered_def)
next
  case Shutdown_enter
  with ok show ?thesis by (simp add: permitted_def)
next
  case Shutdown_finish
  with st link_shutdown_finish(1) [OF inv] inv show ?thesis by (simp add: observe_quiet entered_def)
qed

lemma link_step_owning:
  assumes inv: "link_inv ws s S" and ok: "permitted ws a s" and st: "step_owning a s = Inr s'"
  shows "link_inv (entered a ws) s' (S @ submissions (observe a s)) \<and>
         (\<forall>f \<in> set (found_pops (observe a s)). map_of S (snd f) = Some (fst f))"
proof (cases a)
  case (Init env)
  with st link_init [OF inv, of env s'] show ?thesis by (simp add: observe_quiet entered_def)
next
  case (Enter w lid prio)
  with ok have "may_enter ws w lid s" by (simp add: permitted_def)
  from link_enter [OF inv this, of prio] st Enter show ?thesis
    by (simp add: entered_def observe_def)
next
  case (Worker w)
  with st link_request_step_owning [OF inv, of w s'] show ?thesis by (simp add: observe_quiet entered_def)
next
  case Sched
  with st link_sched_step_owning [OF inv, of s'] show ?thesis
    by (simp add: observe_Sched_submissions entered_def)
next
  case Shutdown_enter
  with ok show ?thesis by (simp add: permitted_def)
next
  case Shutdown_finish
  with st link_shutdown_finish(2) [OF inv] inv show ?thesis by (simp add: observe_quiet entered_def)
qed

lemma found_ok_append:
  assumes "found_ok E" and "\<forall>f \<in> set (found_pops fs). map_of (submissions E) (snd f) = Some (fst f)"
  shows "found_ok (E @ fs)"
proof -
  have keep: "map_of (submissions E @ T) p = Some x" if "map_of (submissions E) p = Some x" for p x T
    using that by (simp add: map_add_def)
  from assms show ?thesis
    unfolding found_ok_def list_all_iff drawn_def submissions_append found_pops_append
    using keep by auto
qed

lemma link_run:
  "link_inv ws s (submissions E) \<Longrightarrow> found_ok E \<Longrightarrow> orderly step ws as s \<Longrightarrow> found_ok (E @ events as s)"
proof (induction as arbitrary: ws s E)
  case Nil
  then show ?case by simp
next
  case (Cons a as)
  show ?case
  proof (cases "step a s")
    case (Inl f)
    with Cons.prems show ?thesis by simp
  next
    case (Inr s1)
    from Cons.prems(3) Inr have ok: "permitted ws a s" and rest: "orderly step (entered a ws) as s1"
      by simp_all
    from link_step [OF Cons.prems(1) ok Inr]
    have inv: "link_inv (entered a ws) s1 (submissions (E @ observe a s))"
      and f: "\<forall>f \<in> set (found_pops (observe a s)). map_of (submissions E) (snd f) = Some (fst f)"
      by (simp_all add: submissions_append)
    from found_ok_append [OF Cons.prems(2) f] have "found_ok (E @ observe a s)" .
    from Cons.IH [OF inv this rest] show ?thesis by (simp add: Inr)
  qed
qed

lemma link_run_owning:
  "link_inv ws s (submissions E) \<Longrightarrow> found_ok E \<Longrightarrow> orderly step_owning ws as s \<Longrightarrow>
   found_ok (E @ events_owning as s)"
proof (induction as arbitrary: ws s E)
  case Nil
  then show ?case by simp
next
  case (Cons a as)
  show ?case
  proof (cases "step_owning a s")
    case (Inl f)
    with Cons.prems show ?thesis by simp
  next
    case (Inr s1)
    from Cons.prems(3) Inr have ok: "permitted ws a s" and rest: "orderly step_owning (entered a ws) as s1"
      by simp_all
    from link_step_owning [OF Cons.prems(1) ok Inr]
    have inv: "link_inv (entered a ws) s1 (submissions (E @ observe a s))"
      and f: "\<forall>f \<in> set (found_pops (observe a s)). map_of (submissions E) (snd f) = Some (fst f)"
      by (simp_all add: submissions_append)
    from found_ok_append [OF Cons.prems(2) f] have "found_ok (E @ observe a s)" .
    from Cons.IH [OF inv this rest] show ?thesis by (simp add: Inr)
  qed
qed

lemma link_inv_initial: "link_inv [] initial_scheduler []"
  by (simp add: link_inv_def linked_def initial_scheduler_def view_defs is_heap_def)

lemma orderly_found_ok:
  "orderly step [] as initial_scheduler \<Longrightarrow> found_ok (events as initial_scheduler)"
  "orderly step_owning [] as initial_scheduler \<Longrightarrow> found_ok (events_owning as initial_scheduler)"
  using link_run [of "[]" initial_scheduler "[]" as] link_run_owning [of "[]" initial_scheduler "[]" as]
    link_inv_initial
  by (simp_all add: found_ok_def)

text \<open>The releases are the waiters the pops found, one after the other.\<close>

lemma sched_signal_follow:
  assumes "scheduler_thread s = Some (At_signal ptr)" and "sched_signal ptr s = Inr s'"
  shows "signal_pending s @ map snd (found_pops (observe Sched s)) = releases (observe Sched s) @ signal_pending s'"
  using assms
  by (auto simp: sched_signal_def observe_def signal_pending_def set_thread_def set_waiter_def
           split: option.splits if_splits)

lemma quiet_thread:
  assumes "scheduler_thread s' = scheduler_thread s \<or> (thread_has_exited s \<and> scheduler_thread s' = None) \<or>
           (scheduler_thread s = None \<and> scheduler_thread s' = Some At_loop)"
  shows "signal_pending s' = signal_pending s"
  using assms by (auto simp: signal_pending_def thread_has_exited_def)

lemma init_thread:
  assumes "scheduler_init env s = Inr s'"
  shows "scheduler_thread s' = scheduler_thread s \<or> (scheduler_thread s = None \<and> scheduler_thread s' = Some At_loop)"
proof (cases "scheduler_running s")
  case True
  with assms show ?thesis by (simp add: scheduler_init_noop)
next
  case False
  show ?thesis
  proof (cases "scheduler_thread s")
    case None
    from scheduler_init_fresh [OF False None, of env] assms show ?thesis by (auto simp: None)
  next
    case (Some p)
    with False assms show ?thesis
      by (auto simp: scheduler_init_def Let_def init_rng_def split: option.splits sum.splits if_splits)
  qed
qed

lemma drain_follow:
  assumes t: "scheduler_thread s = Some At_drain" and free: "\<not> global_mutex_held s"
    and t': "scheduler_thread s' =
               (if scheduler_queue s = [] then Some At_loop
                else case map_find (snd (pq_top (scheduler_queue s))) (trx_wait_map s) of
                       None \<Rightarrow> Some At_loop | Some ptr \<Rightarrow> Some (At_signal ptr))"
  shows "signal_pending s @ map snd (found_pops (observe Sched s)) = releases (observe Sched s) @ signal_pending s'"
  using free by (auto simp: observe_def signal_pending_def t t' split: option.splits)

lemma other_follow:
  assumes "scheduler_thread s \<noteq> Some At_drain" and "\<forall>ptr. scheduler_thread s \<noteq> Some (At_signal ptr)"
    and "\<forall>ptr. scheduler_thread s' \<noteq> Some (At_signal ptr)"
  shows "signal_pending s @ map snd (found_pops (observe Sched s)) = releases (observe Sched s) @ signal_pending s'"
  using assms by (auto simp: observe_def signal_pending_def split: option.splits sched_pc.splits)

lemma stutter_follow:
  "global_mutex_held s \<Longrightarrow> \<forall>ptr. scheduler_thread s \<noteq> Some (At_signal ptr) \<Longrightarrow>
   signal_pending s @ map snd (found_pops (observe Sched s)) = releases (observe Sched s) @ signal_pending s"
  by (auto simp: observe_def signal_pending_def split: option.splits sched_pc.splits)

lemma sched_step_follow:
  assumes st: "sched_step s = Inr s'"
  shows "signal_pending s @ map snd (found_pops (observe Sched s)) = releases (observe Sched s) @ signal_pending s'"
proof (cases "scheduler_thread s")
  case None
  with st show ?thesis by (simp add: sched_step_def other_follow)
next
  case (Some p)
  show ?thesis
  proof (cases p)
    case At_drain
    show ?thesis
    proof (cases "global_mutex_held s")
      case True
      with st Some At_drain show ?thesis by (simp add: sched_step_def stutter_follow)
    next
      case False
      with st Some At_drain have sd: "sched_drain s = Inr s'" by (simp add: sched_step_def)
      show ?thesis
        by (rule drain_follow [OF _ False])
           (use sd Some At_drain in \<open>auto simp: sched_drain_def set_thread_def Let_def split: option.splits if_splits\<close>)
    qed
  next
    case (At_signal ptr)
    with st Some show ?thesis by (simp add: sched_step_def sched_signal_follow)
  next
    case (At_notify ptr)
    with st Some have "\<forall>ptr. scheduler_thread s' \<noteq> Some (At_signal ptr)"
      by (auto simp: sched_step_def sched_notify_def set_thread_def set_waiter_def split: option.splits)
    with Some At_notify show ?thesis by (intro other_follow) simp_all
  next
    case (At_move b)
    with st Some have "\<forall>ptr. scheduler_thread s' \<noteq> Some (At_signal ptr)"
      by (auto simp: sched_step_def sched_move_def set_thread_def split: if_splits)
    with Some At_move show ?thesis by (intro other_follow) simp_all
  next
    case At_loop
    with st Some have "\<forall>ptr. scheduler_thread s' \<noteq> Some (At_signal ptr)"
      by (auto simp: sched_step_def sched_loop_def set_thread_def split: if_splits)
    with Some At_loop show ?thesis by (intro other_follow) simp_all
  next
    case At_collect
    with st Some have "\<forall>ptr. scheduler_thread s' \<noteq> Some (At_signal ptr)"
      by (auto simp: sched_step_def sched_collect_def set_thread_def split: if_splits)
    with Some At_collect show ?thesis by (intro other_follow) simp_all
  next
    case (At_scope_exit ptr)
    with st Some show ?thesis by (simp add: sched_step_def other_follow)
  next
    case Exited
    with st Some show ?thesis by (simp add: sched_step_def other_follow)
  qed
qed

lemma sched_step_owning_follow:
  assumes st: "sched_step_owning s = Inr s'"
  shows "signal_pending s @ map snd (found_pops (observe Sched s)) = releases (observe Sched s) @ signal_pending s'"
proof (cases "scheduler_thread s")
  case None
  with st show ?thesis by (simp add: sched_step_owning_def other_follow)
next
  case (Some p)
  show ?thesis
  proof (cases p)
    case At_drain
    show ?thesis
    proof (cases "global_mutex_held s")
      case True
      with st Some At_drain show ?thesis by (simp add: sched_step_owning_def stutter_follow)
    next
      case False
      with st Some At_drain have sd: "s' = sched_drain_owning s" by (simp add: sched_step_owning_def)
      show ?thesis
        by (rule drain_follow [OF _ False])
           (use Some At_drain in \<open>auto simp: sd sched_drain_owning_def set_thread_def Let_def split: option.splits\<close>)
    qed
  next
    case (At_signal ptr)
    with st Some show ?thesis by (simp add: sched_step_owning_def sched_signal_follow)
  next
    case (At_notify ptr)
    with st Some have "\<forall>ptr. scheduler_thread s' \<noteq> Some (At_signal ptr)"
      by (auto simp: sched_step_owning_def sched_notify_def set_thread_def set_waiter_def split: option.splits)
    with Some At_notify show ?thesis by (intro other_follow) simp_all
  next
    case (At_move b)
    with st Some have "\<forall>ptr. scheduler_thread s' \<noteq> Some (At_signal ptr)"
      by (auto simp: sched_step_owning_def sched_move_def set_thread_def split: if_splits)
    with Some At_move show ?thesis by (intro other_follow) simp_all
  next
    case At_loop
    with st Some have "\<forall>ptr. scheduler_thread s' \<noteq> Some (At_signal ptr)"
      by (auto simp: sched_step_owning_def sched_loop_def set_thread_def split: if_splits)
    with Some At_loop show ?thesis by (intro other_follow) simp_all
  next
    case At_collect
    with st Some have "\<forall>ptr. scheduler_thread s' \<noteq> Some (At_signal ptr)"
      by (auto simp: sched_step_owning_def sched_collect_def set_thread_def split: if_splits)
    with Some At_collect show ?thesis by (intro other_follow) simp_all
  next
    case (At_scope_exit ptr)
    with st Some have "\<forall>ptr. scheduler_thread s' \<noteq> Some (At_signal ptr)"
      by (auto simp: sched_step_owning_def set_thread_def)
    with Some At_scope_exit show ?thesis by (intro other_follow) simp_all
  next
    case Exited
    with st Some show ?thesis by (simp add: sched_step_owning_def other_follow)
  qed
qed

lemma step_follow:
  assumes st: "step a s = Inr s'"
  shows "signal_pending s @ map snd (found_pops (observe a s)) = releases (observe a s) @ signal_pending s'"
proof (cases a)
  case (Init env)
  with st quiet_thread [of s' s] init_thread [of env s s'] show ?thesis by (auto simp: observe_quiet)
next
  case (Enter w lid prio)
  with st quiet_thread [of s' s] request_enter_frame [of w lid prio s] show ?thesis
    by (auto simp: observe_quiet)
next
  case (Worker w)
  with st quiet_thread [of s' s] request_step_frame [of w s s'] show ?thesis by (auto simp: observe_quiet)
next
  case Sched
  with st sched_step_follow show ?thesis by simp
next
  case Shutdown_enter
  with st quiet_thread [of s' s] shutdown_enter_frame [of s] show ?thesis by (auto simp: observe_quiet)
next
  case Shutdown_finish
  with st quiet_thread [of s' s] shutdown_finish_frame [of s s'] show ?thesis by (auto simp: observe_quiet)
qed

lemma step_owning_follow:
  assumes st: "step_owning a s = Inr s'"
  shows "signal_pending s @ map snd (found_pops (observe a s)) = releases (observe a s) @ signal_pending s'"
proof (cases a)
  case (Init env)
  with st quiet_thread [of s' s] init_thread [of env s s'] show ?thesis by (auto simp: observe_quiet)
next
  case (Enter w lid prio)
  with st quiet_thread [of s' s] request_enter_frame [of w lid prio s] show ?thesis
    by (auto simp: observe_quiet)
next
  case (Worker w)
  with st quiet_thread [of s' s] request_step_owning_frame [of w s s'] show ?thesis
    by (auto simp: observe_quiet)
next
  case Sched
  with st sched_step_owning_follow show ?thesis by simp
next
  case Shutdown_enter
  with st quiet_thread [of s' s] shutdown_enter_frame [of s] show ?thesis by (auto simp: observe_quiet)
next
  case Shutdown_finish
  with st quiet_thread [of s' s] shutdown_finish_owning_frame [of s s'] show ?thesis
    by (auto simp: observe_quiet)
qed

lemma follow_run:
  "map snd (found_pops E) = releases E @ signal_pending s \<Longrightarrow>
   \<exists>sp. length sp \<le> 1 \<and> map snd (found_pops (E @ events as s)) = releases (E @ events as s) @ sp"
proof (induction as arbitrary: s E)
  case Nil
  then show ?case by (auto simp: signal_pending_def split: option.splits sched_pc.splits)
next
  case (Cons a as)
  show ?case
  proof (cases "step a s")
    case (Inl f)
    with Cons.prems show ?thesis
      by (auto simp: signal_pending_def split: option.splits sched_pc.splits)
  next
    case (Inr s1)
    from step_follow [OF Inr] Cons.prems
    have "map snd (found_pops (E @ observe a s)) = releases (E @ observe a s) @ signal_pending s1"
      by (simp add: found_pops_append releases_append)
    from Cons.IH [OF this] show ?thesis by (simp add: Inr)
  qed
qed

lemma follow_run_owning:
  "map snd (found_pops E) = releases E @ signal_pending s \<Longrightarrow>
   \<exists>sp. length sp \<le> 1 \<and>
        map snd (found_pops (E @ events_owning as s)) = releases (E @ events_owning as s) @ sp"
proof (induction as arbitrary: s E)
  case Nil
  then show ?case by (auto simp: signal_pending_def split: option.splits sched_pc.splits)
next
  case (Cons a as)
  show ?case
  proof (cases "step_owning a s")
    case (Inl f)
    with Cons.prems show ?thesis
      by (auto simp: signal_pending_def split: option.splits sched_pc.splits)
  next
    case (Inr s1)
    from step_owning_follow [OF Inr] Cons.prems
    have "map snd (found_pops (E @ observe a s)) = releases (E @ observe a s) @ signal_pending s1"
      by (simp add: found_pops_append releases_append)
    from Cons.IH [OF this] show ?thesis by (simp add: Inr)
  qed
qed

lemma releases_follow_pops:
  "prefix (releases (events as initial_scheduler)) (map snd (found_pops (events as initial_scheduler))) \<and>
   length (found_pops (events as initial_scheduler)) \<le> Suc (length (releases (events as initial_scheduler)))"
  "prefix (releases (events_owning as initial_scheduler))
          (map snd (found_pops (events_owning as initial_scheduler))) \<and>
   length (found_pops (events_owning as initial_scheduler))
     \<le> Suc (length (releases (events_owning as initial_scheduler)))"
proof -
  have i: "map snd (found_pops []) = releases [] @ signal_pending initial_scheduler"
    by (simp add: signal_pending_def initial_scheduler_def)
  from follow_run [OF i, of as] obtain sp where sp: "length sp \<le> 1"
    "map snd (found_pops (events as initial_scheduler)) = releases (events as initial_scheduler) @ sp"
    by auto
  from sp(2) have "length (found_pops (events as initial_scheduler))
                     = length (releases (events as initial_scheduler)) + length sp"
    by (metis length_append length_map)
  with sp show "prefix (releases (events as initial_scheduler)) (map snd (found_pops (events as initial_scheduler))) \<and>
   length (found_pops (events as initial_scheduler)) \<le> Suc (length (releases (events as initial_scheduler)))"
    by (simp add: prefix_def)
  from follow_run_owning [OF i, of as] obtain sp where sp: "length sp \<le> 1"
    "map snd (found_pops (events_owning as initial_scheduler))
       = releases (events_owning as initial_scheduler) @ sp"
    by auto
  from sp(2) have "length (found_pops (events_owning as initial_scheduler))
                     = length (releases (events_owning as initial_scheduler)) + length sp"
    by (metis length_append length_map)
  with sp show "prefix (releases (events_owning as initial_scheduler))
          (map snd (found_pops (events_owning as initial_scheduler))) \<and>
   length (found_pops (events_owning as initial_scheduler))
     \<le> Suc (length (releases (events_owning as initial_scheduler)))"
    by (simp add: prefix_def)
qed

text \<open>In logger.cpp every pop that does not end the execution finds its waiter.\<close>

lemma step_pop_found:
  assumes "step a s = Inr s'"
  shows "map fst (found_pops (observe a s)) = pops (observe a s)"
proof (cases "a = Sched \<and> scheduler_thread s = Some At_drain")
  case False
  then show ?thesis
    by (cases a) (auto simp: observe_def split: option.splits sched_pc.splits)
next
  case True
  with assms show ?thesis
    by (auto simp: observe_def sched_step_def sched_drain_def Let_def split: option.splits if_splits)
qed

lemma every_pop_found: "map fst (found_pops (events as s)) = pops (events as s)"
proof (induction as arbitrary: s)
  case Nil
  show ?case by simp
next
  case (Cons a as)
  show ?case
  proof (cases "step a s")
    case (Inl f)
    then show ?thesis by simp
  next
    case (Inr s1)
    with step_pop_found [OF Inr] Cons.IH [of s1] show ?thesis
      by (simp add: found_pops_append pops_append)
  qed
qed

lemma found_subseq_pops: "subseq (map fst (found_pops es)) (pops es)"
  by (induction es rule: found_pops.induct) (auto intro: list_emb_Cons)

lemma released_entries:
  assumes ok: "found_ok es" and pre: "prefix (releases es) (map snd (found_pops es))"
  shows "map (drawn es) (releases es) = map Some (take (length (releases es)) (map fst (found_pops es)))"
proof -
  from pre obtain rest where r: "map snd (found_pops es) = releases es @ rest" by (auto simp: prefix_def)
  then have rel: "releases es = take (length (releases es)) (map snd (found_pops es))" by simp
  let ?n = "length (releases es)"
  let ?F = "take ?n (found_pops es)"
  have a: "releases es = map snd ?F" using rel by (simp add: take_map)
  have "\<forall>f \<in> set ?F. drawn es (snd f) = Some (fst f)"
    using ok unfolding found_ok_def list_all_iff by (meson in_set_takeD)
  then have "map (drawn es) (map snd ?F) = map Some (map fst ?F)" by simp
  with a show ?thesis by (simp add: take_map)
qed

section \<open>Claims about the order of the releases\<close>

lemmas trace_defs = sched_defs observe_def permitted_def entered_def may_enter_def drawn_def

text \<open>
  Two executions of logger.cpp that are not orderly.  In the first, two threads have a
  request in flight for transaction 1, with the priorities 50 and 30; the waiter of the
  first is the one the map holds when the entry with priority 30 is popped, and the worker
  that drew 50 is released for it.  In the second, the scheduler is shut down with the first
  batch still in the priority queue and started again; the entry of the first request of
  transaction 1 is popped after the transaction has made another request, and the worker is
  released for the request that is still in the pending queue.
\<close>

lemma second_request_takes_the_release:
  "\<not> orderly step [] shared_lib_id_run initial_scheduler \<and>
   pops (events shared_lib_id_run initial_scheduler) = [(30, 1)] \<and>
   map (drawn (events shared_lib_id_run initial_scheduler)) (releases (events shared_lib_id_run initial_scheduler))
     = [Some (50, 1)]"
  by (simp add: shared_lib_id_run_def trace_defs)

lemma stale_entry_takes_the_release:
  "\<not> orderly step [] restart_run initial_scheduler \<and>
   pops (events restart_run initial_scheduler) = [(7, 1)] \<and>
   map (drawn (events restart_run initial_scheduler)) (releases (events restart_run initial_scheduler))
     = [Some (3, 1)] \<and>
   (case exec restart_run initial_scheduler of
      Inl e \<Rightarrow> False
    | Inr s \<Rightarrow> pending_requests s = [(3, 1)] \<and> scheduler_queue s = [(9, 2)])"
  by (simp add: restart_run_def trace_defs)

text \<open>
  Claim C8 says that a request that enters the pending queue after the swap for epoch \<open>n\<close> is
  never released until the batch of epoch \<open>n\<close> has fully drained and a new COLLECTING phase has
  run.  The shutdown path is not bound by this: it releases every waiter that is in the map.
  In the execution below (logger.cpp) worker 3 submits after the first batch has been swapped
  out and while worker 2 of that batch is still in the priority queue; the shutdown sets its
  flag, and it returns from \<open>scheduler_request\<close> although its request never left the pending
  queue and the earlier batch has not been drained: the scheduler thread has popped one entry
  and released one waiter, the one of worker 1, and worker 2 has not yet looked at its flag.
\<close>

theorem shutdown_releases_a_later_request_first:
  "(case exec late_request_run initial_scheduler of
      Inl e \<Rightarrow> False
    | Inr s \<Rightarrow>
        map_option pc (workers s 3) = Some Returned \<and>
        map_option pc (workers s 2) = Some At_wait \<and>
        pending_requests s = [(1, 3)] \<and> scheduler_queue s = [(9, 2)]) \<and>
   batches (events late_request_run initial_scheduler) = [[(7, 1), (9, 2)]] \<and>
   pops (events late_request_run initial_scheduler) = [(7, 1)] \<and>
   releases (events late_request_run initial_scheduler) = [1]"
  by (simp add: late_request_run_def trace_defs)

text \<open>
  Claim C8, amended.  In every execution, of either version of the scheduler, the entries are
  popped batch by batch: every batch but the last swapped out has been popped whole before any
  entry of a later batch, each in the order of its priority queue, and the entries popped of
  the last batch are the first of its order; so a request that enters the pending queue after
  the swap for epoch \<open>n\<close> is not moved into the priority queue before the batch of epoch \<open>n\<close>
  has been drained and a later COLLECTING iteration has swapped it out.  The waiters the
  scheduler thread releases are, one after the other, the waiters the pops found in the map
  (at most the last one found is still to be released); in logger.cpp every pop finds one, in
  scheduler.cpp the pops that find one are some of the pops.  And in an orderly execution
  (no shutdown, no request for a transaction that has one in flight) the waiter a pop finds
  is the one that was submitted with the popped entry: the entries of the workers released
  are, in the order of their release, the entries popped (in scheduler.cpp: those popped with
  a waiter found), so no worker of a later batch is released by the scheduler thread before
  the earlier batch has been drained.
\<close>

theorem epochs_are_released_in_order:
  fixes as
  defines "E \<equiv> events as initial_scheduler" and "E' \<equiv> events_owning as initial_scheduler"
  shows "in_order (batches E) (pops E) \<and> in_order (batches E') (pops E') \<and>
         prefix (releases E) (map snd (found_pops E)) \<and> length (found_pops E) \<le> Suc (length (releases E)) \<and>
         prefix (releases E') (map snd (found_pops E')) \<and> length (found_pops E') \<le> Suc (length (releases E')) \<and>
         map fst (found_pops E) = pops E \<and> subseq (map fst (found_pops E')) (pops E') \<and>
         (orderly step [] as initial_scheduler \<longrightarrow>
            map (drawn E) (releases E) = map Some (take (length (releases E)) (pops E))) \<and>
         (orderly step_owning [] as initial_scheduler \<longrightarrow>
            map (drawn E') (releases E') = map Some (take (length (releases E')) (map fst (found_pops E'))))"
proof -
  note f = releases_follow_pops [of as, folded E_def E'_def]
  have a: "map (drawn E) (releases E) = map Some (take (length (releases E)) (pops E))"
    if "orderly step [] as initial_scheduler"
    using released_entries [OF orderly_found_ok(1) [OF that]] f(1) every_pop_found [of as initial_scheduler]
    by (simp add: E_def)
  have b: "map (drawn E') (releases E') = map Some (take (length (releases E')) (map fst (found_pops E')))"
    if "orderly step_owning [] as initial_scheduler"
    using released_entries [OF orderly_found_ok(2) [OF that]] f(2) by (simp add: E'_def)
  from pops_in_order [of as, folded E_def E'_def] f a b
    every_pop_found [of as initial_scheduler, folded E_def] found_subseq_pops [of E']
  show ?thesis by blast
qed

theorem epochs_are_released_in_order_witness:
  "orderly step [] two_epochs_run initial_scheduler \<and>
   batches (events two_epochs_run initial_scheduler) = [[(7, 1), (9, 2)], [(1, 3)]] \<and>
   pops (events two_epochs_run initial_scheduler) = [(7, 1), (9, 2), (1, 3)] \<and>
   releases (events two_epochs_run initial_scheduler) = [1, 2, 3] \<and>
   map (drawn (events two_epochs_run initial_scheduler)) (releases (events two_epochs_run initial_scheduler))
     = [Some (7, 1), Some (9, 2), Some (1, 3)]"
proof -
  have o: "orderly step [] two_epochs_run initial_scheduler"
    by (simp add: two_epochs_run_def trace_defs)
  have e: "batches (events two_epochs_run initial_scheduler) = [[(7, 1), (9, 2)], [(1, 3)]]"
    "pops (events two_epochs_run initial_scheduler) = [(7, 1), (9, 2), (1, 3)]"
    "releases (events two_epochs_run initial_scheduler) = [1, 2, 3]"
    by (simp_all add: two_epochs_run_def trace_defs)
  from epochs_are_released_in_order [where as = two_epochs_run] o
  have "map (drawn (events two_epochs_run initial_scheduler)) (releases (events two_epochs_run initial_scheduler))
     = map Some (take (length (releases (events two_epochs_run initial_scheduler)))
                      (pops (events two_epochs_run initial_scheduler)))"
    by blast
  with o e show ?thesis by simp
qed

text \<open>
  Claim C2, amended.  A batch moved into the empty priority queue is popped in ascending
  order of the priorities, and what is popped is the batch (the order among equal priorities
  is the heap's, not the order of insertion).  In every execution the entries popped are the
  batches swapped out, one after the other, each in this order, and the waiters released are,
  one after the other, the waiters the pops found in the map under the popped identifiers.
  And in an orderly execution (no shutdown, no request for a transaction that has one in
  flight) the workers are released in this order: the entries the released workers drew are,
  in the order of the releases, the first of the concatenated orders of the batches in
  logger.cpp, and a subsequence of them in scheduler.cpp, where a pop that finds no waiter
  releases nobody.
\<close>

theorem batch_released_in_priority_order:
  fixes as
  defines "E \<equiv> events as initial_scheduler" and "E' \<equiv> events_owning as initial_scheduler"
  shows "sorted (map fst (batch_order batch)) \<and> mset (batch_order batch) = mset batch \<and>
         batch_order batch = drain_order (scheduler_queue (sched_move batch (s\<lparr>scheduler_queue := []\<rparr>))) \<and>
         prefix (pops E) (concat (map batch_order (batches E))) \<and>
         prefix (pops E') (concat (map batch_order (batches E'))) \<and>
         prefix (releases E) (map snd (found_pops E)) \<and>
         prefix (releases E') (map snd (found_pops E')) \<and>
         (orderly step [] as initial_scheduler \<longrightarrow>
            prefix (map (drawn E) (releases E)) (map Some (concat (map batch_order (batches E))))) \<and>
         (orderly step_owning [] as initial_scheduler \<longrightarrow>
            subseq (map (drawn E') (releases E')) (map Some (concat (map batch_order (batches E')))))"
proof -
  let ?q = "foldl (\<lambda>q x. pq_push x q) [] batch"
  have q: "scheduler_queue (sched_move batch (s\<lparr>scheduler_queue := []\<rparr>)) = ?q"
    by (simp add: sched_move_def set_thread_def)
  from foldl_pq_push [OF is_heap_empty, of batch]
  have hp: "is_heap (length ?q) ?q" and m: "mset ?q = mset batch" by simp_all
  from drain_n_sorted [OF hp order_refl] m
  have s1: "sorted (map fst (batch_order batch))" "mset (batch_order batch) = mset batch"
    unfolding batch_order_def drain_order_def by simp_all
  have s2: "batch_order batch = drain_order (scheduler_queue (sched_move batch (s\<lparr>scheduler_queue := []\<rparr>)))"
    unfolding q batch_order_def ..
  note io = pops_in_order [of as, folded E_def E'_def]
  from io have p: "prefix (pops E) (concat (map batch_order (batches E)))"
    "prefix (pops E') (concat (map batch_order (batches E')))"
    by (simp_all add: in_order_def)
  note f = releases_follow_pops [of as, folded E_def E'_def]
  have a: "prefix (map (drawn E) (releases E)) (map Some (concat (map batch_order (batches E))))"
    if o: "orderly step [] as initial_scheduler"
  proof -
    from released_entries [OF orderly_found_ok(1) [OF o]] f(1) every_pop_found [of as initial_scheduler]
    have "map (drawn E) (releases E) = map Some (take (length (releases E)) (pops E))"
      by (simp add: E_def)
    moreover have "prefix (take (length (releases E)) (pops E)) (concat (map batch_order (batches E)))"
      using take_is_prefix p(1) by (rule prefix_order.trans)
    ultimately show ?thesis by (simp add: map_mono_prefix)
  qed
  have b: "subseq (map (drawn E') (releases E')) (map Some (concat (map batch_order (batches E'))))"
    if o: "orderly step_owning [] as initial_scheduler"
  proof -
    from released_entries [OF orderly_found_ok(2) [OF o]] f(2)
    have r: "map (drawn E') (releases E') = map Some (take (length (releases E')) (map fst (found_pops E')))"
      by (simp add: E'_def)
    have "subseq (take (length (releases E')) (map fst (found_pops E'))) (map fst (found_pops E'))"
      by (rule prefix_imp_subseq) (rule take_is_prefix)
    also have "subseq (map fst (found_pops E')) (pops E')" by (rule found_subseq_pops)
    also have "subseq (pops E') (concat (map batch_order (batches E')))"
      by (rule prefix_imp_subseq) (rule p(2))
    finally show ?thesis unfolding r by (rule subseq_map)
  qed
  from s1 s2 p f a b show ?thesis by blast
qed

theorem batch_released_in_priority_order_witness:
  "orderly step_owning [] four_requests_run initial_scheduler \<and>
   batches (events_owning four_requests_run initial_scheduler) = [[(50, 1), (10, 2), (90, 3), (30, 4)]] \<and>
   map (drawn (events_owning four_requests_run initial_scheduler))
       (releases (events_owning four_requests_run initial_scheduler))
     = [Some (10, 2), Some (30, 4), Some (50, 1), Some (90, 3)] \<and>
   subseq [Some (10, 2), Some (30, 4), Some (50, 1), Some (90, 3)]
          (map Some (batch_order [(50, 1), (10, 2), (90, 3), (30, 4)]))"
proof -
  have o: "orderly step_owning [] four_requests_run initial_scheduler"
    by (simp add: four_requests_run_def trace_defs)
  have e: "batches (events_owning four_requests_run initial_scheduler) = [[(50, 1), (10, 2), (90, 3), (30, 4)]]"
    "map (drawn (events_owning four_requests_run initial_scheduler))
       (releases (events_owning four_requests_run initial_scheduler))
     = [Some (10, 2), Some (30, 4), Some (50, 1), Some (90, 3)]"
    by (simp_all add: four_requests_run_def trace_defs)
  from batch_released_in_priority_order [where as = four_requests_run] o
  have "subseq (map (drawn (events_owning four_requests_run initial_scheduler))
                    (releases (events_owning four_requests_run initial_scheduler)))
               (map Some (concat (map batch_order (batches (events_owning four_requests_run initial_scheduler)))))"
    by blast
  with o e show ?thesis by simp
qed

end
